theory Spec2Isabelle
  imports Main "HOL-Library.AList"
begin

section \<open>JavaScript values used by the Game module\<close>

text \<open>
  The engine is the \<open>Game\<close> module of \<open>src/js/leaderboard.js\<close> (lines 239-580).
  Strings are lists of code units (\<open>string\<close>); the digits the engine looks at are ASCII.
  Numbers are JavaScript integers: \<open>int\<close>, and \<open>nat\<close> for the two counters of
  \<open>analyzeGuess\<close>, which only count up from zero. The arguments of the public
  functions have the types the user interface passes: a guess and a level are
  strings, a duration is an integer, \<open>enabled\<close> is a boolean.
\<close>

text \<open>
  The two budgets are read from a table entry that need not have them, so they are
  numbers or \<open>undefined\<close>, and what is computed from them can be \<open>NaN\<close>:
  \<open>a >= b\<close> is false unless both sides are numbers, and \<open>a - b\<close> is \<open>NaN\<close> unless
  both sides are numbers.
\<close>

datatype jsnum = Num int | NaN | Undefined

fun js_ge :: "jsnum \<Rightarrow> jsnum \<Rightarrow> bool" where
  "js_ge (Num a) (Num b) = (a \<ge> b)"
| "js_ge a b = False"

fun js_sub :: "jsnum \<Rightarrow> jsnum \<Rightarrow> jsnum" where
  "js_sub (Num a) (Num b) = Num (a - b)"
| "js_sub a b = NaN"

text \<open>\<open>xs[i]\<close>: reading past the end of an array or string gives \<open>undefined\<close> (\<open>None\<close>).\<close>

definition at_index :: "'a list \<Rightarrow> nat \<Rightarrow> 'a option" where
  "at_index xs i = (if i < length xs then Some (xs ! i) else None)"

text \<open>\<open>Number.prototype.toString\<close> on a non-negative integer: its decimal digits.\<close>

definition digit_char :: "nat \<Rightarrow> char" where
  "digit_char d = ''0123456789'' ! d"

fun toString :: "nat \<Rightarrow> string" where
  "toString n = (if n < 10 then [digit_char n] else toString (n div 10) @ [digit_char (n mod 10)])"

declare toString.simps [simp del]

definition numToString :: "int \<Rightarrow> string" where
  "numToString i = (if i < 0 then CHR ''-'' # toString (nat (- i)) else toString (nat i))"

text \<open>\<open>String.prototype.padStart(n, c)\<close> for a one-character pad string.\<close>

definition padStart :: "nat \<Rightarrow> char \<Rightarrow> string \<Rightarrow> string" where
  "padStart n c s = replicate (n - length s) c @ s"

text \<open>The regular expression \<open>/^\d{4}$/\<close>: exactly four characters, each in \<open>0\<close>..\<open>9\<close>.\<close>

definition is_digit :: "char \<Rightarrow> bool" where
  "is_digit c = (c \<in> set ''0123456789'')"

definition test_4_digits :: "string \<Rightarrow> bool" where
  "test_4_digits g = (length g = 4 \<and> list_all is_digit g)"

text \<open>
  A JavaScript \<open>Map\<close> from keys to counts: an association list in insertion order,
  \<open>map_of\<close> for \<open>get\<close>/\<open>has\<close> and \<open>AList.update\<close> for \<open>set\<close> (an existing key keeps
  its place, a new key goes to the end).
\<close>

type_synonym 'k js_map = "('k \<times> nat) list"

text \<open>\<open>m.set(k, (m.get(k) || 0) + 1)\<close>\<close>

definition bump :: "'k \<Rightarrow> 'k js_map \<Rightarrow> 'k js_map" where
  "bump k m = AList.update k ((case map_of m k of None \<Rightarrow> 0 | Some c \<Rightarrow> c) + 1) m"

section \<open>The state of the Game module\<close>

record guessEntry =
  attempt :: int
  sequence :: string
  exact :: nat
  partial :: nat
  time :: string

text \<open>The object returned by \<open>getState\<close>.\<close>

record snapshot =
  snap_secret :: string
  snap_attempts :: int
  snap_maxAttempts :: jsnum
  snap_gameOver :: bool
  snap_guesses :: "guessEntry list"
  snap_hintsUsed :: int
  snap_maxHints :: jsnum
  snap_remainingAttempts :: jsnum
  snap_remainingHints :: jsnum
  snap_difficulty :: string
  snap_timerMode :: bool
  snap_timeLeft :: int
  snap_timerDuration :: int
  snap_score :: int

text \<open>
  Calls of the three callbacks, in the order they happen. The second argument of
  \<open>onGameEnd\<close> is part of the outcome: \<open>{attempts, score}\<close> for a win, \<open>{secret}\<close> for
  a loss, nothing for \<open>'timeout'\<close> and \<open>'attempts'\<close>.
\<close>

datatype outcome = Win int int | Lose string | Timeout | Attempts

datatype event = OnUpdate snapshot | OnTimerTick int | OnGameEnd outcome

text \<open>
  The private variables of the module. A callback variable is \<open>True\<close> when a function
  is registered and \<open>False\<close> when it is \<open>null\<close>; what a registered callback is called
  with is appended to \<open>trace\<close>. \<open>timerInterval\<close> is the handle kept by the module;
  \<open>scheduled\<close> are the interval handles the host still fires (\<open>setInterval\<close> adds
  one, \<open>clearInterval\<close> removes one) and \<open>nextHandle\<close> the next handle the host
  hands out (handles are positive, so a handle is truthy). \<open>console\<close> collects the
  secrets written by \<open>console.log\<close>.
\<close>

record game =
  secret :: string
  attempts :: int
  maxAttempts :: jsnum
  gameOver :: bool
  guesses :: "guessEntry list"
  hintsUsed :: int
  maxHints :: jsnum
  difficulty :: string
  timerMode :: bool
  timerDuration :: int
  timerInterval :: "nat option"
  timeLeft :: int
  startTime :: int
  onUpdate :: bool
  onTimerTick :: bool
  onGameEnd :: bool
  trace :: "event list"
  scheduled :: "nat list"
  nextHandle :: nat
  console :: "string list"

text \<open>The module as loaded, before \<open>init\<close>.\<close>

definition Game0 :: game where
  "Game0 = \<lparr> secret = '''', attempts = 0, maxAttempts = Num 15, gameOver = False, guesses = [],
     hintsUsed = 0, maxHints = Num 3, difficulty = ''medium'', timerMode = False,
     timerDuration = 0, timerInterval = None, timeLeft = 0, startTime = 0,
     onUpdate = False, onTimerTick = False, onGameEnd = False,
     trace = [], scheduled = [], nextHandle = 1, console = [] \<rparr>"

text \<open>
  The names every object literal inherits from \<open>Object.prototype\<close>. Indexing the
  table with one of them gives the inherited function or object, which is truthy and
  has neither an \<open>attempts\<close> nor a \<open>hints\<close> property.
\<close>

definition Object_prototype_names :: "string list" where
  "Object_prototype_names =
     [''constructor'', ''__defineGetter__'', ''__defineSetter__'', ''hasOwnProperty'',
      ''__lookupGetter__'', ''__lookupSetter__'', ''isPrototypeOf'',
      ''propertyIsEnumerable'', ''toString'', ''valueOf'', ''__proto__'',
      ''toLocaleString'']"

text \<open>
  \<open>DIFFICULTY_SETTINGS[level]\<close>, as the pair of what \<open>.attempts\<close> and \<open>.hints\<close> read
  from it: the three own keys of the table, then the inherited names, whose two reads
  are \<open>undefined\<close>; for any other string the entry itself is \<open>undefined\<close> (\<open>None\<close>).
\<close>

definition DIFFICULTY_SETTINGS :: "string \<Rightarrow> (jsnum \<times> jsnum) option" where
  "DIFFICULTY_SETTINGS level =
     (if level = ''easy'' then Some (Num 6, Num 5)
      else if level = ''medium'' then Some (Num 15, Num 3)
      else if level = ''hard'' then Some (Num 15, Num 0)
      else if level \<in> set Object_prototype_names then Some (Undefined, Undefined)
      else None)"

section \<open>Scoring and the state snapshot\<close>

definition calculateScore :: "int \<Rightarrow> int \<Rightarrow> game \<Rightarrow> int" where
  "calculateScore attemptsUsed exactMatches s =
     (let baseScore = 1000;
          attemptPenalty = attemptsUsed * 50;
          hintPenalty = hintsUsed s * 100;
          timeBonus = (if timerMode s \<and> timeLeft s > 0 then timeLeft s * 10 else 0);
          finalScore = baseScore - attemptPenalty - hintPenalty + timeBonus
      in max finalScore 100)"

definition getState :: "game \<Rightarrow> snapshot" where
  "getState s =
     \<lparr> snap_secret = (if gameOver s then secret s else ''????''),
       snap_attempts = attempts s,
       snap_maxAttempts = maxAttempts s,
       snap_gameOver = gameOver s,
       snap_guesses = guesses s,
       snap_hintsUsed = hintsUsed s,
       snap_maxHints = maxHints s,
       snap_remainingAttempts = js_sub (maxAttempts s) (Num (attempts s)),
       snap_remainingHints = js_sub (maxHints s) (Num (hintsUsed s)),
       snap_difficulty = difficulty s,
       snap_timerMode = timerMode s,
       snap_timeLeft = timeLeft s,
       snap_timerDuration = timerDuration s,
       snap_score = calculateScore (attempts s) 0 s \<rparr>"

text \<open>\<open>if (onUpdate) onUpdate(getState())\<close>, and the same guard for the other two.\<close>

definition emit_update :: "game \<Rightarrow> game" where
  "emit_update s = (if onUpdate s then s\<lparr>trace := trace s @ [OnUpdate (getState s)]\<rparr> else s)"

definition emit_tick :: "int \<Rightarrow> game \<Rightarrow> game" where
  "emit_tick t s = (if onTimerTick s then s\<lparr>trace := trace s @ [OnTimerTick t]\<rparr> else s)"

definition emit_end :: "outcome \<Rightarrow> game \<Rightarrow> game" where
  "emit_end out s = (if onGameEnd s then s\<lparr>trace := trace s @ [OnGameEnd out]\<rparr> else s)"

section \<open>Guess analysis\<close>

text \<open>
  One round of the first loop of \<open>analyzeGuess\<close>, on the accumulator
  (exact, targetFreq, guessFreq). The keys are array reads, so \<open>undefined\<close> is a key
  like any other.
\<close>

definition analyze_step ::
  "string \<Rightarrow> string \<Rightarrow> nat \<Rightarrow> nat \<times> char option js_map \<times> char option js_map
     \<Rightarrow> nat \<times> char option js_map \<times> char option js_map" where
  "analyze_step target att i acc =
     (case acc of (ex, targetFreq, guessFreq) \<Rightarrow>
        if at_index att i = at_index target i then (ex + 1, targetFreq, guessFreq)
        else (ex, bump (at_index target i) targetFreq, bump (at_index att i) guessFreq))"

text \<open>The second loop: over the entries of guessFreq, in insertion order.\<close>

definition partial_step :: "char option js_map \<Rightarrow> char option \<times> nat \<Rightarrow> nat \<Rightarrow> nat" where
  "partial_step targetFreq entry p =
     (case entry of (digit, count) \<Rightarrow>
        (case map_of targetFreq digit of
           Some c \<Rightarrow> p + min count c
         | None \<Rightarrow> p))"

text \<open>\<open>analyzeGuess(guess)\<close> returns \<open>{exact, partial}\<close>, here the pair (exact, partial).\<close>

definition analyzeGuess :: "string \<Rightarrow> game \<Rightarrow> nat \<times> nat" where
  "analyzeGuess guess s =
     (let target = secret s;
          att = guess
      in case fold (analyze_step target att) [0..<4] (0, [], []) of
           (ex, targetFreq, guessFreq) \<Rightarrow>
             (ex, fold (partial_step targetFreq) guessFreq 0))"

section \<open>The countdown timer\<close>

text \<open>\<open>clearInterval(h)\<close>: the host stops firing \<open>h\<close>.\<close>

definition clearInterval :: "nat \<Rightarrow> game \<Rightarrow> game" where
  "clearInterval h s = s\<lparr>scheduled := removeAll h (scheduled s)\<rparr>"

text \<open>\<open>if (timerInterval) { clearInterval(timerInterval); timerInterval = null; }\<close>\<close>

definition cancelTimer :: "game \<Rightarrow> game" where
  "cancelTimer s =
     (case timerInterval s of
        Some h \<Rightarrow> (clearInterval h s)\<lparr>timerInterval := None\<rparr>
      | None \<Rightarrow> s)"

text \<open>
  The body of the function given to \<open>setInterval\<close> in \<open>startTimer\<close>: what one firing
  of the interval does.
\<close>

definition tick :: "game \<Rightarrow> game" where
  "tick s =
     (let s1 = s\<lparr>timeLeft := timeLeft s - 1\<rparr>;
          s2 = emit_tick (timeLeft s1) s1;
          s3 = (if timeLeft s2 \<le> 0
                then emit_end Timeout (cancelTimer (s2\<lparr>gameOver := True\<rparr>))
                else s2)
      in emit_update s3)"

text \<open>\<open>timerInterval = setInterval(..., 1000)\<close>: a fresh handle, scheduled from now on.\<close>

definition startTimer :: "game \<Rightarrow> game" where
  "startTimer s =
     s\<lparr>timerInterval := Some (nextHandle s),
       scheduled := scheduled s @ [nextHandle s],
       nextHandle := Suc (nextHandle s)\<rparr>"

definition resetTimer :: "game \<Rightarrow> game" where
  "resetTimer s =
     (let s1 = cancelTimer s
      in if timerMode s1 then startTimer (s1\<lparr>timeLeft := timerDuration s1\<rparr>) else s1)"

section \<open>Commands\<close>

text \<open>
  What the environment supplies is a parameter: \<open>rnd\<close> is the value of
  \<open>Math.floor(Math.random() * 10000)\<close>, \<open>now\<close> the value of \<open>Date.now()\<close>.
\<close>

definition reset :: "nat \<Rightarrow> int \<Rightarrow> game \<Rightarrow> game" where
  "reset rnd now s =
     (let s1 = s\<lparr>secret := padStart 4 (CHR ''0'') (toString rnd),
                 attempts := 0, gameOver := False, guesses := [], hintsUsed := 0,
                 startTime := now\<rparr>;
          s2 = (if timerMode s1 then resetTimer s1 else s1);
          s3 = s2\<lparr>console := console s2 @ [secret s2]\<rparr>
      in emit_update s3)"

record callbacks =
  cb_onUpdate :: bool
  cb_onTimerTick :: bool
  cb_onGameEnd :: bool

definition init :: "callbacks \<Rightarrow> nat \<Rightarrow> int \<Rightarrow> game \<Rightarrow> snapshot \<times> game" where
  "init cbs rnd now s =
     (let s1 = s\<lparr>onUpdate := cb_onUpdate cbs, onTimerTick := cb_onTimerTick cbs,
                 onGameEnd := cb_onGameEnd cbs\<rparr>;
          s2 = reset rnd now s1
      in (getState s2, s2))"

definition setDifficulty :: "string \<Rightarrow> nat \<Rightarrow> int \<Rightarrow> game \<Rightarrow> game" where
  "setDifficulty level rnd now s =
     (case DIFFICULTY_SETTINGS level of
        None \<Rightarrow> s
      | Some (a, h) \<Rightarrow> reset rnd now (s\<lparr>difficulty := level, maxAttempts := a, maxHints := h\<rparr>))"

text \<open>\<open>setTimerMode(enabled, seconds = 60)\<close>: \<open>None\<close> is the omitted second argument.\<close>

definition setTimerMode :: "bool \<Rightarrow> int option \<Rightarrow> nat \<Rightarrow> int \<Rightarrow> game \<Rightarrow> game" where
  "setTimerMode enabled seconds rnd now s =
     (let s1 = s\<lparr>timerMode := enabled,
                 timerDuration := (case seconds of None \<Rightarrow> 60 | Some d \<Rightarrow> d)\<rparr>;
          s2 = (if enabled then resetTimer s1 else cancelTimer s1)
      in reset rnd now s2)"

text \<open>
  The results of \<open>makeGuess\<close>: \<open>{success: false, message}\<close>, the win
  \<open>{success: true, gameWon: true, message, score}\<close> and the feedback
  \<open>{success: true, feedback: {exact, partial}, message}\<close>. The two emoji of the win
  message are left out of the string. A failure carries nothing but its message, so
  the message tells the kind of error: "Game over. Start new game." the game-over
  error, "Maximum attempts reached!" the exhausted attempts, "Enter exactly 4 digits!"
  the invalid format.
\<close>

datatype guessResult =
    GuessFailure string
  | GuessWon string int
  | GuessFeedback nat nat string

text \<open>\<open>clock\<close> is the value of \<open>new Date().toLocaleTimeString()\<close>.\<close>

definition makeGuess :: "string \<Rightarrow> string \<Rightarrow> game \<Rightarrow> guessResult \<times> game" where
  "makeGuess guess clock s =
     (if gameOver s then (GuessFailure ''Game over. Start new game.'', s)
      else if js_ge (Num (attempts s)) (maxAttempts s) then
        (GuessFailure ''Maximum attempts reached!'', emit_end Attempts (s\<lparr>gameOver := True\<rparr>))
      else if \<not> test_4_digits guess then (GuessFailure ''Enter exactly 4 digits!'', s)
      else
        (case analyzeGuess guess s of (ex, pa) \<Rightarrow>
          let s1 = s\<lparr>attempts := attempts s + 1\<rparr>;
              guessEntry = \<lparr>attempt = attempts s1, sequence = guess, exact = ex,
                            partial = pa, time = clock\<rparr>;
              s2 = s1\<lparr>guesses := guessEntry # guesses s1\<rparr>;
              score = calculateScore (attempts s2) (int ex) s2
          in if ex = 4 then
               (let s3 = emit_end (Win (attempts s2) score) (cancelTimer (s2\<lparr>gameOver := True\<rparr>))
                in (GuessWon ''ACCESS GRANTED! You win!'' score, emit_update s3))
             else
               (let s3 = (if js_ge (Num (attempts s2)) (maxAttempts s2)
                          then emit_end (Lose (secret s2)) (cancelTimer (s2\<lparr>gameOver := True\<rparr>))
                          else s2)
                in (GuessFeedback ex pa
                      (''Attempt '' @ numToString (attempts s3) @ '': '' @ toString ex
                         @ '' exact, '' @ toString pa @ '' partial''),
                    emit_update s3))))"

text \<open>
  The results of \<open>useHint\<close>: \<open>{success: false, message}\<close> and
  \<open>{success: true, position, digit, remaining}\<close>; \<open>digit\<close> is the read \<open>secret[pos]\<close>.
  "Game is over!" is the game-over error, "No hints remaining!" the exhausted hints.
  \<open>pos\<close> is the value of \<open>Math.floor(Math.random() * 4)\<close>.
\<close>

datatype hintResult =
    HintFailure string
  | Hint int "char option" jsnum

definition useHint :: "nat \<Rightarrow> game \<Rightarrow> hintResult \<times> game" where
  "useHint pos s =
     (if gameOver s then (HintFailure ''Game is over!'', s)
      else if js_ge (Num (hintsUsed s)) (maxHints s) then (HintFailure ''No hints remaining!'', s)
      else
        (let s1 = s\<lparr>hintsUsed := hintsUsed s + 1\<rparr>;
             digit = at_index (secret s1) pos;
             s2 = emit_update s1
         in (Hint (int pos + 1) digit (js_sub (maxHints s2) (Num (hintsUsed s2))), s2)))"

section \<open>Runs of the engine\<close>

text \<open>
  A command is a call of the public API with the values the environment supplies
  to it, or the host firing the interval with handle \<open>h\<close>; the host fires only
  handles that are scheduled.
\<close>

datatype command =
    Init callbacks nat int
  | Reset nat int
  | SetDifficulty string nat int
  | SetTimerMode bool "int option" nat int
  | MakeGuess string string
  | UseHint nat
  | Fire nat

fun exec :: "command \<Rightarrow> game \<Rightarrow> game" where
  "exec (Init cbs rnd now) s = snd (init cbs rnd now s)"
| "exec (Reset rnd now) s = reset rnd now s"
| "exec (SetDifficulty level rnd now) s = setDifficulty level rnd now s"
| "exec (SetTimerMode enabled seconds rnd now) s = setTimerMode enabled seconds rnd now s"
| "exec (MakeGuess guess clock) s = snd (makeGuess guess clock s)"
| "exec (UseHint pos) s = snd (useHint pos s)"
| "exec (Fire h) s = (if h \<in> set (scheduled s) then tick s else s)"

text \<open>
  The ranges of the random draws: \<open>Math.floor(Math.random() * 10000)\<close> is below 10000
  and \<open>Math.floor(Math.random() * 4)\<close> below 4.
\<close>

fun env_ok :: "command \<Rightarrow> bool" where
  "env_ok (Init cbs rnd now) = (rnd < 10000)"
| "env_ok (Reset rnd now) = (rnd < 10000)"
| "env_ok (SetDifficulty level rnd now) = (rnd < 10000)"
| "env_ok (SetTimerMode enabled seconds rnd now) = (rnd < 10000)"
| "env_ok (MakeGuess guess clock) = True"
| "env_ok (UseHint pos) = (pos < 4)"
| "env_ok (Fire h) = True"

text \<open>
  The states the engine reaches from \<open>init\<close> on the freshly loaded module by commands
  that satisfy \<open>ok\<close>.
\<close>

inductive reach :: "(command \<Rightarrow> bool) \<Rightarrow> game \<Rightarrow> bool" for ok :: "command \<Rightarrow> bool" where
  reach_init: "ok (Init cbs rnd now) \<Longrightarrow> reach ok (exec (Init cbs rnd now) Game0)"
| reach_step: "reach ok s \<Longrightarrow> ok c \<Longrightarrow> reach ok (exec c s)"

definition reachable :: "game \<Rightarrow> bool" where
  "reachable s = reach env_ok s"

text \<open>Running a list of commands, first to last.\<close>

definition run :: "command list \<Rightarrow> game \<Rightarrow> game" where
  "run cs s = fold exec cs s"

section \<open>The matching rule as the specification words it\<close>

text \<open>
  For a secret \<open>S\<close> and a guess \<open>G\<close> of four characters: the exact matches are the
  positions where the two agree; the leftover of a string are its characters at the
  other positions; the partial matches are, summed over the ten digit values, the
  smaller of the digit's counts in the two leftovers.
\<close>

definition exact_spec :: "string \<Rightarrow> string \<Rightarrow> nat" where
  "exact_spec S G = length (filter (\<lambda>i. S ! i = G ! i) [0..<4])"

definition leftover :: "string \<Rightarrow> string \<Rightarrow> string \<Rightarrow> string" where
  "leftover X S G = map (\<lambda>i. X ! i) (filter (\<lambda>i. S ! i \<noteq> G ! i) [0..<4])"

definition partial_spec :: "string \<Rightarrow> string \<Rightarrow> nat" where
  "partial_spec S G =
     (\<Sum>d\<leftarrow>''0123456789''. min (count_list (leftover S S G) d) (count_list (leftover G S G) d))"

section \<open>Invariants of the engine\<close>

text \<open>
  The attempt and hint budgets, where they are numbers: a game that is not over has
  an attempt left, and no more hints are used than the budget has.
\<close>

definition budget_inv :: "game \<Rightarrow> bool" where
  "budget_inv s =
     ((case maxAttempts s of
         Num m \<Rightarrow> 0 < m \<and> attempts s \<le> m \<and> (gameOver s \<or> attempts s < m)
       | _ \<Rightarrow> True)
      \<and> 0 \<le> hintsUsed s
      \<and> (case maxHints s of Num h \<Rightarrow> hintsUsed s \<le> h | _ \<Rightarrow> True))"

text \<open>Budgets that a new game can start with: a number of attempts is positive, a number of hints not negative.\<close>

definition fresh_budget :: "jsnum \<Rightarrow> jsnum \<Rightarrow> bool" where
  "fresh_budget a h =
     ((case a of Num m \<Rightarrow> 0 < m | _ \<Rightarrow> True) \<and> (case h of Num n \<Rightarrow> 0 \<le> n | _ \<Rightarrow> True))"

text \<open>
  The module owns at most one interval: the host fires exactly the handle kept in
  \<open>timerInterval\<close>, and only in timer mode; a countdown runs only while the game is on.
\<close>

definition handle_inv :: "game \<Rightarrow> bool" where
  "handle_inv s = (scheduled s = (case timerInterval s of None \<Rightarrow> [] | Some h \<Rightarrow> [h])
      \<and> (timerInterval s = None \<or> timerMode s))"

definition timer_inv :: "game \<Rightarrow> bool" where
  "timer_inv s = (handle_inv s \<and> (timerInterval s = None \<or> \<not> gameOver s))"

text \<open>The history holds one entry per counted attempt, numbered from the newest down to 1.\<close>

definition history_inv :: "game \<Rightarrow> bool" where
  "history_inv s = (attempts s = int (length (guesses s))
      \<and> map attempt (guesses s) = rev (map int [1..<Suc (length (guesses s))]))"

definition engine_inv :: "game \<Rightarrow> bool" where
  "engine_inv s = (budget_inv s \<and> timer_inv s)"

text \<open>After \<open>init\<close> the secret is a string of four digits.\<close>

definition secret_inv :: "game \<Rightarrow> bool" where
  "secret_inv s = test_4_digits (secret s)"

text \<open>How often \<open>onGameEnd('timeout')\<close> has been called.\<close>

definition timeouts :: "game \<Rightarrow> nat" where
  "timeouts s = count_list (trace s) (OnGameEnd Timeout)"

text \<open>
  The clock: durations and the time left are not negative, a duration in timer mode is
  at least one second, and a running countdown has at least one second left.
\<close>

definition clock_inv :: "game \<Rightarrow> bool" where
  "clock_inv s = (0 \<le> timerDuration s \<and> 0 \<le> timeLeft s
      \<and> (timerMode s \<longrightarrow> 1 \<le> timerDuration s)
      \<and> (timerInterval s \<noteq> None \<longrightarrow> 1 \<le> timeLeft s))"

text \<open>
  Calls of \<open>setTimerMode\<close> whose duration, when given, is not negative, and at least
  one second when the timer is switched on.
\<close>

fun duration_ok :: "command \<Rightarrow> bool" where
  "duration_ok (SetTimerMode enabled seconds rnd now) =
     (case seconds of None \<Rightarrow> True | Some d \<Rightarrow> 0 \<le> d \<and> (enabled \<longrightarrow> 1 \<le> d))"
| "duration_ok c = True"

definition clock_ok :: "command \<Rightarrow> bool" where
  "clock_ok c = (env_ok c \<and> duration_ok c)"

section \<open>Sample inputs\<close>

text \<open>All three callbacks registered, as the user interface does at start-up.\<close>

definition all_callbacks :: callbacks where
  "all_callbacks = \<lparr>cb_onUpdate = True, cb_onTimerTick = True, cb_onGameEnd = True\<rparr>"

section \<open>Guess analysis computes the matching rule\<close>

lemma fold_analyze_step:
  "\<forall>i\<in>set is. i < length T \<and> i < length A \<Longrightarrow>
   fold (analyze_step T A) is (e, tf, gf) =
     (e + length (filter (\<lambda>i. T ! i = A ! i) is),
      fold bump (map (\<lambda>i. Some (T ! i)) (filter (\<lambda>i. T ! i \<noteq> A ! i) is)) tf,
      fold bump (map (\<lambda>i. Some (A ! i)) (filter (\<lambda>i. T ! i \<noteq> A ! i) is)) gf)"
proof (induction "is" arbitrary: e tf gf)
  case Nil
  then show ?case by simp
next
  case (Cons i "is")
  then show ?case by (auto simp: analyze_step_def at_index_def)
qed

lemma map_of_bump:
  "map_of (bump k m) = (map_of m)(k \<mapsto> (case map_of m k of None \<Rightarrow> 0 | Some c \<Rightarrow> c) + 1)"
  by (simp add: bump_def update_conv')

lemma map_of_fold_bump:
  "map_of (fold bump xs m) k =
     (if k \<in> set xs then Some (count_list xs k + (case map_of m k of None \<Rightarrow> 0 | Some c \<Rightarrow> c))
      else map_of m k)"
  by (induction xs arbitrary: m) (auto simp: map_of_bump split: option.splits)

lemma distinct_fold_bump:
  "distinct (map fst m) \<Longrightarrow> distinct (map fst (fold bump xs m))"
  by (induction xs arbitrary: m) (auto simp: bump_def distinct_update)

lemma keys_fold_bump: "fst ` set (fold bump xs m) = set xs \<union> fst ` set m"
  by (induction xs arbitrary: m) (auto simp: bump_def dom_update)

lemma fold_partial_step:
  "fold (partial_step tf) gf p =
     p + (\<Sum>e\<leftarrow>gf. case map_of tf (fst e) of Some c \<Rightarrow> min (snd e) c | None \<Rightarrow> 0)"
  by (induction gf arbitrary: p) (auto simp: partial_step_def split: option.splits prod.splits)

lemma sum_list_alist:
  assumes "distinct (map fst gf)"
  shows "(\<Sum>e\<leftarrow>gf. f (fst e) (snd e)) = (\<Sum>d\<in>fst ` set gf. f d (the (map_of gf d)))"
proof -
  have h: "the (map_of gf (fst e)) = snd e" if "e \<in> set gf" for e
    using assms that by (cases e) simp
  have "map (\<lambda>e. f (fst e) (snd e)) gf = map (\<lambda>e. f (fst e) (the (map_of gf (fst e)))) gf"
    by (rule map_cong[OF refl]) (simp add: h)
  then have "(\<Sum>e\<leftarrow>gf. f (fst e) (snd e)) = sum_list (map (\<lambda>d. f d (the (map_of gf d))) (map fst gf))"
    by (simp only: map_map o_def)
  also have "\<dots> = (\<Sum>d\<in>set (map fst gf). f d (the (map_of gf d)))"
    using assms by (rule sum_list_distinct_conv_sum_set)
  finally show ?thesis by simp
qed

lemma partial_of_freqs:
  "fold (partial_step (fold bump (map Some ls) [])) (fold bump (map Some lg) []) 0 =
     (\<Sum>d\<in>set lg. min (count_list ls d) (count_list lg d))"
proof -
  let ?tf = "fold bump (map Some ls) []" and ?gf = "fold bump (map Some lg) []"
  have cnt: "count_list (map Some xs) (Some d) = count_list xs d" for xs :: string and d
    by (induction xs) auto
  have d: "distinct (map fst ?gf)" by (rule distinct_fold_bump) simp
  have "fold (partial_step ?tf) ?gf 0 =
          (\<Sum>e\<leftarrow>?gf. case map_of ?tf (fst e) of Some c \<Rightarrow> min (snd e) c | None \<Rightarrow> 0)"
    by (simp add: fold_partial_step)
  also have "\<dots> = (\<Sum>k\<in>fst ` set ?gf. case map_of ?tf k of Some c \<Rightarrow> min (the (map_of ?gf k)) c | None \<Rightarrow> 0)"
    using sum_list_alist[OF d, of "\<lambda>k v. case map_of ?tf k of Some c \<Rightarrow> min v c | None \<Rightarrow> 0"] .
  also have "\<dots> = (\<Sum>k\<in>Some ` set lg. case map_of ?tf k of Some c \<Rightarrow> min (the (map_of ?gf k)) c | None \<Rightarrow> 0)"
    by (simp add: keys_fold_bump)
  also have "\<dots> = (\<Sum>d\<in>set lg. case map_of ?tf (Some d) of Some c \<Rightarrow> min (the (map_of ?gf (Some d))) c | None \<Rightarrow> 0)"
    by (simp add: sum.reindex)
  also have "\<dots> = (\<Sum>d\<in>set lg. min (count_list ls d) (count_list lg d))"
    by (rule sum.cong) (auto simp: map_of_fold_bump cnt min.commute count_list_0_iff inj_image_mem_iff)
  finally show ?thesis .
qed

lemma analyzeGuess_general:
  assumes "length S = 4" "length G = 4"
  shows "analyzeGuess G (s\<lparr>secret := S\<rparr>) =
     (exact_spec S G, \<Sum>d\<in>set (leftover G S G). min (count_list (leftover S S G) d) (count_list (leftover G S G) d))"
proof -
  let ?ns = "filter (\<lambda>i. S ! i \<noteq> G ! i) [0..<4]"
  have "\<forall>i\<in>set [0..<4]. i < length S \<and> i < length G" using assms by simp
  from fold_analyze_step[OF this, of 0 "[]" "[]"]
  have "fold (analyze_step S G) [0..<4] (0, [], []) =
          (exact_spec S G, fold bump (map Some (leftover S S G)) [],
           fold bump (map Some (leftover G S G)) [])"
    by (simp only: exact_spec_def leftover_def map_map o_def add_0)
  then show ?thesis
    by (simp add: analyzeGuess_def partial_of_freqs)
qed


lemma distinct_digits: "distinct ''0123456789''"
  by simp

lemma leftover_subset: "length G = 4 \<Longrightarrow> set (leftover G S G) \<subseteq> set G"
  unfolding leftover_def by (auto simp del: upt_Suc)

lemma analyzeGuess_spec:
  assumes "test_4_digits S" "test_4_digits G"
  shows "analyzeGuess G (s\<lparr>secret := S\<rparr>) = (exact_spec S G, partial_spec S G)"
proof -
  let ?f = "\<lambda>d. min (count_list (leftover S S G) d) (count_list (leftover G S G) d)"
  let ?D = "''0123456789''"
  have len: "length S = 4" "length G = 4" and dig: "\<forall>c\<in>set G. c \<in> set ?D"
    using assms unfolding test_4_digits_def list_all_iff is_digit_def by blast+
  have sub: "set (leftover G S G) \<subseteq> set ?D"
    using leftover_subset[OF len(2), of S] dig by (meson subset_iff)
  have zero: "\<forall>d\<in>set ?D - set (leftover G S G). ?f d = 0"
  proof
    fix d assume "d \<in> set ?D - set (leftover G S G)"
    then have "d \<notin> set (leftover G S G)" by blast
    then have "count_list (leftover G S G) d = 0" by (simp add: count_list_0_iff)
    then show "?f d = 0" by simp
  qed
  have "partial_spec S G = sum ?f (set ?D)"
    unfolding partial_spec_def using distinct_digits by (rule sum_list_distinct_conv_sum_set)
  also have "\<dots> = sum ?f (set (leftover G S G))"
    using sum.mono_neutral_right[OF finite_set sub zero] .
  finally show ?thesis using analyzeGuess_general[OF len] by (simp only:)
qed



text \<open>
  C1, as the code has it. For a secret and a guess of four digits each, \<open>analyzeGuess\<close>
  returns as \<open>exact\<close> the number of positions where secret and guess agree, and as
  \<open>partial\<close> the sum over the digit values of the smaller of the two counts of that
  digit among the positions where they differ. For secret 1122 and guess 1234 this is
  exact 1 and partial 1. For secret 1123 and guess 1111 it is exact 2 and partial 0:
  the guess agrees with the secret at the first two positions.
\<close>

theorem analyzeGuess_matches:
  assumes "test_4_digits (secret s)" and "test_4_digits guess"
  shows "analyzeGuess guess s = (exact_spec (secret s) guess, partial_spec (secret s) guess)
       \<and> analyzeGuess ''1234'' (s\<lparr>secret := ''1122''\<rparr>) = (1, 1)
       \<and> analyzeGuess ''1111'' (s\<lparr>secret := ''1123''\<rparr>) = (2, 0)"
proof -
  have t: "test_4_digits ''1122''" "test_4_digits ''1234''"
          "test_4_digits ''1123''" "test_4_digits ''1111''"
    by (simp_all add: test_4_digits_def is_digit_def)
  have "analyzeGuess guess (s\<lparr>secret := secret s\<rparr>) =
          (exact_spec (secret s) guess, partial_spec (secret s) guess)"
    using assms by (rule analyzeGuess_spec)
  moreover have "analyzeGuess ''1234'' (s\<lparr>secret := ''1122''\<rparr>) = (1, 1)"
    unfolding analyzeGuess_spec[OF t(1) t(2)]
    by (simp add: exact_spec_def partial_spec_def leftover_def upt_rec)
  moreover have "analyzeGuess ''1111'' (s\<lparr>secret := ''1123''\<rparr>) = (2, 0)"
    unfolding analyzeGuess_spec[OF t(3) t(4)]
    by (simp add: exact_spec_def partial_spec_def leftover_def upt_rec)
  ultimately show ?thesis by simp
qed

theorem analyzeGuess_matches_witness:
  "test_4_digits (secret (Game0\<lparr>secret := ''1122''\<rparr>)) \<and> test_4_digits ''1234'' \<and>
   analyzeGuess ''1234'' (Game0\<lparr>secret := ''1122''\<rparr>) = (1, 1)"
  using analyzeGuess_matches[of "Game0\<lparr>secret := ''1122''\<rparr>" "''1234''"]
  by (simp add: test_4_digits_def is_digit_def exact_spec_def partial_spec_def leftover_def
        upt_rec)

text \<open>
  The claim's second example does not hold: with secret 1123 the guess 1111 is not
  answered by exact 1 and partial 1.
\<close>

theorem analyzeGuess_1123_1111_counterexample:
  "analyzeGuess ''1111'' (Game0\<lparr>secret := ''1123''\<rparr>) \<noteq> (1, 1)"
  by code_simp

section \<open>The budgets and the timer handle are invariant\<close>

lemmas emit_defs = emit_update_def emit_tick_def emit_end_def
lemmas timer_defs = clearInterval_def cancelTimer_def startTimer_def resetTimer_def tick_def
lemmas inv_defs = engine_inv_def budget_inv_def timer_inv_def handle_inv_def

lemma engine_inv_Game0: "engine_inv Game0"
  by (simp add: inv_defs Game0_def)

lemma budget_not_exhausted:
  "budget_inv s \<Longrightarrow> gameOver s \<or> \<not> js_ge (Num (attempts s)) (maxAttempts s)"
  by (cases "maxAttempts s") (auto simp: budget_inv_def)

lemma budget_inv_fresh:
  "budget_inv s \<Longrightarrow> fresh_budget (maxAttempts s) (maxHints s)"
  by (cases "maxAttempts s"; cases "maxHints s") (auto simp: budget_inv_def fresh_budget_def)

lemma engine_inv_reset:
  "fresh_budget (maxAttempts s) (maxHints s) \<Longrightarrow> handle_inv s \<Longrightarrow> engine_inv (reset rnd now s)"
  by (cases "maxAttempts s"; cases "maxHints s")
     (auto simp: inv_defs fresh_budget_def reset_def emit_defs timer_defs Let_def
           split: option.splits)

lemma fresh_DIFFICULTY_SETTINGS: "DIFFICULTY_SETTINGS level = Some (a, h) \<Longrightarrow> fresh_budget a h"
  by (auto simp: DIFFICULTY_SETTINGS_def fresh_budget_def split: if_splits)

lemma engine_inv_setDifficulty: "engine_inv s \<Longrightarrow> engine_inv (setDifficulty level rnd now s)"
proof (cases "DIFFICULTY_SETTINGS level")
  case None
  assume "engine_inv s"
  then show ?thesis using None by (simp add: setDifficulty_def)
next
  case (Some p)
  assume inv: "engine_inv s"
  obtain a h where p: "p = (a, h)" by (cases p)
  have "fresh_budget a h"
    using Some p by (simp add: fresh_DIFFICULTY_SETTINGS)
  moreover have "handle_inv (s\<lparr>difficulty := level, maxAttempts := a, maxHints := h\<rparr>)"
    using inv by (simp add: inv_defs)
  ultimately have "engine_inv (reset rnd now (s\<lparr>difficulty := level, maxAttempts := a, maxHints := h\<rparr>))"
    by (intro engine_inv_reset) simp_all
  then show ?thesis using Some p by (simp add: setDifficulty_def)
qed

lemma engine_inv_setTimerMode: "engine_inv s \<Longrightarrow> engine_inv (setTimerMode enabled seconds rnd now s)"
proof -
  assume inv: "engine_inv s"
  then have f: "fresh_budget (maxAttempts s) (maxHints s)"
    by (simp add: engine_inv_def budget_inv_fresh)
  have h: "handle_inv s" using inv by (simp add: engine_inv_def timer_inv_def)
  show ?thesis
    unfolding setTimerMode_def Let_def
    using f h
    by (intro engine_inv_reset) (auto simp: handle_inv_def timer_defs Let_def split: option.splits)
qed

lemma engine_inv_useHint: "engine_inv s \<Longrightarrow> engine_inv (snd (useHint pos s))"
  by (cases "maxAttempts s"; cases "maxHints s")
     (auto simp: inv_defs useHint_def emit_defs Let_def)

lemma engine_inv_init: "engine_inv s \<Longrightarrow> engine_inv (snd (init cbs rnd now s))"
proof -
  assume inv: "engine_inv s"
  then have f: "fresh_budget (maxAttempts s) (maxHints s)"
    by (simp add: engine_inv_def budget_inv_fresh)
  have h: "handle_inv s" using inv by (simp add: engine_inv_def timer_inv_def)
  show ?thesis
    unfolding init_def Let_def snd_conv
    using f h by (intro engine_inv_reset) (simp_all add: handle_inv_def)
qed

lemma tick_fields:
  "timeLeft (tick s) = timeLeft s - 1"
  "gameOver (tick s) = (gameOver s \<or> timeLeft s - 1 \<le> 0)"
  "timerInterval (tick s) = (if timeLeft s - 1 \<le> 0 then None else timerInterval s)"
  "scheduled (tick s) =
     (if timeLeft s - 1 \<le> 0
      then (case timerInterval s of Some h \<Rightarrow> removeAll h (scheduled s) | None \<Rightarrow> scheduled s)
      else scheduled s)"
  "attempts (tick s) = attempts s" "maxAttempts (tick s) = maxAttempts s"
  "hintsUsed (tick s) = hintsUsed s" "maxHints (tick s) = maxHints s"
  "guesses (tick s) = guesses s" "secret (tick s) = secret s"
  "timerMode (tick s) = timerMode s" "timerDuration (tick s) = timerDuration s"
  "onUpdate (tick s) = onUpdate s" "onTimerTick (tick s) = onTimerTick s"
  "onGameEnd (tick s) = onGameEnd s"
  by (simp_all add: tick_def emit_defs cancelTimer_def clearInterval_def Let_def split: option.splits)

lemma engine_inv_tick: "engine_inv s \<Longrightarrow> engine_inv (tick s)"
  unfolding inv_defs tick_fields
  by (cases "maxAttempts s"; cases "maxHints s") (auto split: option.splits)

lemma makeGuess_rejects:
  "gameOver s \<Longrightarrow> makeGuess g c s = (GuessFailure ''Game over. Start new game.'', s)"
  "\<not> gameOver s \<Longrightarrow> js_ge (Num (attempts s)) (maxAttempts s) \<Longrightarrow>
     makeGuess g c s =
       (GuessFailure ''Maximum attempts reached!'', emit_end Attempts (s\<lparr>gameOver := True\<rparr>))"
  "\<not> gameOver s \<Longrightarrow> \<not> js_ge (Num (attempts s)) (maxAttempts s) \<Longrightarrow> \<not> test_4_digits g \<Longrightarrow>
     makeGuess g c s = (GuessFailure ''Enter exactly 4 digits!'', s)"
  by (simp_all add: makeGuess_def)

lemma makeGuess_accepts:
  assumes "\<not> gameOver s" "\<not> js_ge (Num (attempts s)) (maxAttempts s)" "test_4_digits g"
    and "analyzeGuess g s = (ex, pa)"
  shows "attempts (snd (makeGuess g c s)) = attempts s + 1"
    and "guesses (snd (makeGuess g c s)) =
           \<lparr>attempt = attempts s + 1, sequence = g, exact = ex, partial = pa, time = c\<rparr> # guesses s"
    and "gameOver (snd (makeGuess g c s)) =
           (ex = 4 \<or> js_ge (Num (attempts s + 1)) (maxAttempts s))"
    and "timerInterval (snd (makeGuess g c s)) =
           (if ex = 4 \<or> js_ge (Num (attempts s + 1)) (maxAttempts s) then None
            else timerInterval s)"
    and "scheduled (snd (makeGuess g c s)) =
           (if ex = 4 \<or> js_ge (Num (attempts s + 1)) (maxAttempts s)
            then (case timerInterval s of Some h \<Rightarrow> removeAll h (scheduled s) | None \<Rightarrow> scheduled s)
            else scheduled s)"
    and "maxAttempts (snd (makeGuess g c s)) = maxAttempts s"
    and "hintsUsed (snd (makeGuess g c s)) = hintsUsed s"
    and "maxHints (snd (makeGuess g c s)) = maxHints s"
    and "timerMode (snd (makeGuess g c s)) = timerMode s"
    and "timeLeft (snd (makeGuess g c s)) = timeLeft s"
    and "timerDuration (snd (makeGuess g c s)) = timerDuration s"
    and "secret (snd (makeGuess g c s)) = secret s"
    and "onUpdate (snd (makeGuess g c s)) = onUpdate s"
    and "onTimerTick (snd (makeGuess g c s)) = onTimerTick s"
    and "onGameEnd (snd (makeGuess g c s)) = onGameEnd s"
  using assms
  by (simp_all add: makeGuess_def emit_defs cancelTimer_def clearInterval_def Let_def
        split: option.splits)

lemma makeGuess_exhausted_fields:
  "gameOver (emit_end Attempts (s\<lparr>gameOver := True\<rparr>))"
  "attempts (emit_end Attempts (s\<lparr>gameOver := True\<rparr>)) = attempts s"
  "guesses (emit_end Attempts (s\<lparr>gameOver := True\<rparr>)) = guesses s"
  by (simp_all add: emit_defs)

lemma engine_inv_makeGuess: "engine_inv s \<Longrightarrow> engine_inv (snd (makeGuess g c s))"
proof -
  assume inv: "engine_inv s"
  then have lt: "gameOver s \<or> \<not> js_ge (Num (attempts s)) (maxAttempts s)"
    by (simp add: engine_inv_def budget_not_exhausted)
  show ?thesis
  proof (cases "gameOver s \<or> \<not> test_4_digits g")
    case True
    then show ?thesis using inv lt by (cases "gameOver s") (auto simp: makeGuess_rejects)
  next
    case False
    then have a: "\<not> gameOver s" "\<not> js_ge (Num (attempts s)) (maxAttempts s)" "test_4_digits g"
      using lt by auto
    obtain ex pa where an: "analyzeGuess g s = (ex, pa)" by (cases "analyzeGuess g s")
    show ?thesis using inv a
      unfolding inv_defs makeGuess_accepts[OF a an]
      by (cases "maxAttempts s"; cases "maxHints s") (auto split: option.splits)
  qed
qed

lemma engine_inv_exec: "engine_inv s \<Longrightarrow> engine_inv (exec c s)"
proof (cases c)
  case (Reset rnd now)
  assume "engine_inv s"
  then have "engine_inv (reset rnd now s)"
    by (intro engine_inv_reset) (simp_all add: engine_inv_def budget_inv_fresh timer_inv_def)
  then show ?thesis using Reset by simp
qed (auto simp: engine_inv_init engine_inv_setDifficulty engine_inv_setTimerMode
       engine_inv_makeGuess engine_inv_useHint engine_inv_tick)

lemma reach_engine_inv: "reach ok s \<Longrightarrow> engine_inv s"
proof (induction rule: reach.induct)
  case (reach_init cbs rnd now)
  show ?case using engine_inv_exec[OF engine_inv_Game0] .
next
  case (reach_step s c)
  then show ?case by (simp add: engine_inv_exec)
qed

section \<open>Reachable states\<close>

lemma reach_run: "reach ok s \<Longrightarrow> list_all ok cs \<Longrightarrow> reach ok (run cs s)"
  unfolding run_def by (induction cs arbitrary: s) (auto intro: reach_step)

lemma reachable_run:
  "list_all env_ok (Init cbs rnd now # cs) \<Longrightarrow> reachable (run (Init cbs rnd now # cs) Game0)"
proof -
  assume a: "list_all env_ok (Init cbs rnd now # cs)"
  then have "reach env_ok (exec (Init cbs rnd now) Game0)" by (intro reach_init) simp
  then have "reach env_ok (run cs (exec (Init cbs rnd now) Game0))"
    using a by (intro reach_run) simp_all
  then show ?thesis by (simp add: reachable_def run_def)
qed

section \<open>Scoring\<close>

text \<open>
  C2. \<open>calculateScore(attemptsUsed, exactMatches)\<close> is the larger of 100 and
  1000 - 50 * attemptsUsed - 100 * hintsUsed + timeBonus, where timeBonus is
  10 * timeLeft in timer mode with time left and 0 otherwise; it does not depend on
  \<open>exactMatches\<close> and is never below 100.
\<close>

theorem calculateScore_formula:
  "calculateScore attemptsUsed exactMatches s =
     max 100 (1000 - 50 * attemptsUsed - 100 * hintsUsed s
               + (if timerMode s \<and> timeLeft s > 0 then 10 * timeLeft s else 0))
   \<and> calculateScore attemptsUsed e1 s = calculateScore attemptsUsed e2 s
   \<and> 100 \<le> calculateScore attemptsUsed exactMatches s"
  by (simp add: calculateScore_def Let_def max.commute mult.commute)

section \<open>The snapshot hides the secret\<close>

text \<open>
  C5. The \<open>secret\<close> field of the snapshot returned by \<open>getState\<close> is the four
  question marks while the game is on and the secret once the game is over; two
  states of a running game that differ only in the secret have the same snapshot.
\<close>

theorem getState_masks_secret:
  "snap_secret (getState s) = (if gameOver s then secret s else ''????'')
   \<and> length ''????'' = 4
   \<and> getState (s\<lparr>gameOver := False, secret := x\<rparr>) = getState (s\<lparr>gameOver := False, secret := y\<rparr>)"
  by (simp add: getState_def calculateScore_def)

section \<open>The budgets\<close>

text \<open>
  While the budgets are numbers they bound the counters, and a game that is not over
  has an attempt left.
\<close>

lemma numeric_budgets_bounded:
  assumes "reach ok s"
  shows "maxAttempts s = Num m \<Longrightarrow> attempts s \<le> m \<and> (gameOver s \<or> attempts s < m)"
    and "maxHints s = Num n \<Longrightarrow> hintsUsed s \<le> n"
  using reach_engine_inv[OF assms] by (simp_all add: inv_defs)

text \<open>
  C7 fails in the code. \<open>setDifficulty('constructor')\<close> passes the guard of
  \<open>setDifficulty\<close>, because the table inherits a \<open>constructor\<close>, and leaves both
  budgets \<open>undefined\<close>. No comparison with a budget is true afterwards: sixteen
  well-formed guesses other than the secret and four hints are all accepted, the game
  is still on, and neither \<open>attempts <= maxAttempts\<close> nor \<open>hintsUsed <= maxHints\<close>
  holds.
\<close>

theorem budgets_undefined_after_constructor:
  "reachable (run (Init all_callbacks 42 0 # SetDifficulty ''constructor'' 42 1
                   # replicate 16 (MakeGuess ''1111'' ''10:00'') @ replicate 4 (UseHint 0)) Game0)
   \<and> maxAttempts (run (Init all_callbacks 42 0 # SetDifficulty ''constructor'' 42 1
                   # replicate 16 (MakeGuess ''1111'' ''10:00'') @ replicate 4 (UseHint 0)) Game0)
       = Undefined
   \<and> maxHints (run (Init all_callbacks 42 0 # SetDifficulty ''constructor'' 42 1
                   # replicate 16 (MakeGuess ''1111'' ''10:00'') @ replicate 4 (UseHint 0)) Game0)
       = Undefined
   \<and> attempts (run (Init all_callbacks 42 0 # SetDifficulty ''constructor'' 42 1
                   # replicate 16 (MakeGuess ''1111'' ''10:00'') @ replicate 4 (UseHint 0)) Game0)
       = 16
   \<and> hintsUsed (run (Init all_callbacks 42 0 # SetDifficulty ''constructor'' 42 1
                   # replicate 16 (MakeGuess ''1111'' ''10:00'') @ replicate 4 (UseHint 0)) Game0)
       = 4
   \<and> \<not> gameOver (run (Init all_callbacks 42 0 # SetDifficulty ''constructor'' 42 1
                   # replicate 16 (MakeGuess ''1111'' ''10:00'') @ replicate 4 (UseHint 0)) Game0)
   \<and> \<not> js_ge Undefined (Num 16) \<and> \<not> js_ge Undefined (Num 4)"
proof -
  let ?s = "run (Init all_callbacks 42 0 # SetDifficulty ''constructor'' 42 1
                   # replicate 16 (MakeGuess ''1111'' ''10:00'') @ replicate 4 (UseHint 0)) Game0"
  have "reachable ?s" by (rule reachable_run) (simp add: list_all_iff)
  moreover have "maxAttempts ?s = Undefined" by code_simp
  moreover have "maxHints ?s = Undefined" by code_simp
  moreover have "attempts ?s = 16" by code_simp
  moreover have "hintsUsed ?s = 4" by code_simp
  moreover have "\<not> gameOver ?s" by code_simp
  ultimately show ?thesis by simp
qed

section \<open>Rejected guesses\<close>

text \<open>
  C4. In a reachable state \<open>makeGuess\<close> first looks at \<open>gameOver\<close>: when the game
  is over it answers "Game over. Start new game." and leaves the state as it is.
  Otherwise an input that is not exactly four decimal digits is answered by
  "Enter exactly 4 digits!", again with the state unchanged, so no attempt is used.
\<close>

theorem makeGuess_validation_order:
  assumes "reachable s"
  shows "(gameOver s \<longrightarrow> makeGuess guess clock s = (GuessFailure ''Game over. Start new game.'', s))
       \<and> (\<not> gameOver s \<and> \<not> test_4_digits guess \<longrightarrow>
            makeGuess guess clock s = (GuessFailure ''Enter exactly 4 digits!'', s))"
proof -
  have "engine_inv s" using assms unfolding reachable_def by (rule reach_engine_inv)
  then have "gameOver s \<or> \<not> js_ge (Num (attempts s)) (maxAttempts s)"
    by (simp add: engine_inv_def budget_not_exhausted)
  then show ?thesis by (auto simp: makeGuess_rejects)
qed


theorem makeGuess_validation_order_witness:
  "reachable (run [Init all_callbacks 42 0] Game0)
   \<and> \<not> gameOver (run [Init all_callbacks 42 0] Game0)
   \<and> \<not> test_4_digits ''12a4''
   \<and> makeGuess ''12a4'' ''10:00'' (run [Init all_callbacks 42 0] Game0) =
       (GuessFailure ''Enter exactly 4 digits!'', run [Init all_callbacks 42 0] Game0)
   \<and> reachable (run [Init all_callbacks 42 0, MakeGuess ''0042'' ''10:00''] Game0)
   \<and> gameOver (run [Init all_callbacks 42 0, MakeGuess ''0042'' ''10:00''] Game0)
   \<and> makeGuess ''1234'' ''10:01'' (run [Init all_callbacks 42 0, MakeGuess ''0042'' ''10:00''] Game0) =
       (GuessFailure ''Game over. Start new game.'',
        run [Init all_callbacks 42 0, MakeGuess ''0042'' ''10:00''] Game0)"
proof -
  let ?s1 = "run [Init all_callbacks 42 0] Game0"
  let ?s2 = "run [Init all_callbacks 42 0, MakeGuess ''0042'' ''10:00''] Game0"
  have r1: "reachable ?s1" by (rule reachable_run) simp
  have r2: "reachable ?s2" by (rule reachable_run) simp
  have g1: "\<not> gameOver ?s1" by code_simp
  have g2: "gameOver ?s2" by code_simp
  have d: "\<not> test_4_digits ''12a4''" by code_simp
  show ?thesis
    using r1 r2 g1 g2 d
      makeGuess_validation_order[OF r1, of "''12a4''" "''10:00''"]
      makeGuess_validation_order[OF r2, of "''1234''" "''10:01''"]
    by simp
qed

section \<open>The secret is four digits\<close>

lemma reset_fields:
  "attempts (reset rnd now s) = 0" "guesses (reset rnd now s) = []"
  "hintsUsed (reset rnd now s) = 0" "gameOver (reset rnd now s) = False"
  "secret (reset rnd now s) = padStart 4 (CHR ''0'') (toString rnd)"
  "maxAttempts (reset rnd now s) = maxAttempts s" "maxHints (reset rnd now s) = maxHints s"
  "timerMode (reset rnd now s) = timerMode s" "timerDuration (reset rnd now s) = timerDuration s"
  "timeLeft (reset rnd now s) = (if timerMode s then timerDuration s else timeLeft s)"
  "timerInterval (reset rnd now s) = (if timerMode s then Some (nextHandle s) else timerInterval s)"
  "onUpdate (reset rnd now s) = onUpdate s" "onTimerTick (reset rnd now s) = onTimerTick s"
  "onGameEnd (reset rnd now s) = onGameEnd s"
  by (simp_all add: reset_def emit_defs timer_defs Let_def split: option.splits)

lemma is_digit_digit_char: "d < 10 \<Longrightarrow> is_digit (digit_char d)"
proof -
  assume "d < 10"
  then have "d < length ''0123456789''" by simp
  then have "''0123456789'' ! d \<in> set ''0123456789''" by (rule nth_mem)
  then show ?thesis by (simp only: is_digit_def digit_char_def)
qed

lemma digits_toString: "list_all is_digit (toString n)"
proof (induction n rule: toString.induct)
  case (1 n)
  show ?case
  proof (cases "n < 10")
    case True
    then show ?thesis by (subst toString.simps) (simp add: is_digit_digit_char)
  next
    case False
    then have "list_all is_digit (toString (n div 10))" by (rule "1.IH")
    then show ?thesis using False by (subst toString.simps) (simp add: is_digit_digit_char)
  qed
qed

lemma length_toString: "0 < k \<Longrightarrow> n < 10 ^ k \<Longrightarrow> length (toString n) \<le> k"
proof (induction k arbitrary: n)
  case 0
  then show ?case by simp
next
  case (Suc k)
  show ?case
  proof (cases "n < 10")
    case True
    then show ?thesis by (subst toString.simps) simp
  next
    case False
    then have k: "0 < k" using Suc.prems by (cases k) auto
    have "n div 10 < 10 ^ k" using Suc.prems(2) by (simp add: less_mult_imp_div_less mult.commute)
    then have "length (toString (n div 10)) \<le> k" using k by (intro Suc.IH)
    then show ?thesis using False by (subst toString.simps) simp
  qed
qed

lemma secret_is_4_digits: "rnd < 10000 \<Longrightarrow> test_4_digits (padStart 4 (CHR ''0'') (toString rnd))"
proof -
  assume "rnd < 10000"
  then have "length (toString rnd) \<le> 4" using length_toString[of 4 rnd] by simp
  moreover have "is_digit (CHR ''0'')" by (simp add: is_digit_def)
  ultimately show ?thesis
    using digits_toString[of rnd] by (auto simp: test_4_digits_def padStart_def list_all_iff)
qed

section \<open>What each command does to the fields\<close>

lemma useHint_fields:
  "attempts (snd (useHint pos s)) = attempts s" "guesses (snd (useHint pos s)) = guesses s"
  "secret (snd (useHint pos s)) = secret s" "timeLeft (snd (useHint pos s)) = timeLeft s"
  "timerDuration (snd (useHint pos s)) = timerDuration s"
  "timerMode (snd (useHint pos s)) = timerMode s"
  "timerInterval (snd (useHint pos s)) = timerInterval s"
  by (simp_all add: useHint_def emit_defs Let_def)

lemma makeGuess_keeps:
  "secret (snd (makeGuess g c s)) = secret s"
  "timeLeft (snd (makeGuess g c s)) = timeLeft s"
  "timerDuration (snd (makeGuess g c s)) = timerDuration s"
  "timerMode (snd (makeGuess g c s)) = timerMode s"
  by (simp_all add: makeGuess_def emit_defs cancelTimer_def clearInterval_def Let_def
        split: prod.splits option.splits)

lemma setDifficulty_cases:
  "setDifficulty level rnd now s = s \<or>
   (\<exists>a h. setDifficulty level rnd now s =
            reset rnd now (s\<lparr>difficulty := level, maxAttempts := a, maxHints := h\<rparr>))"
  by (auto simp: setDifficulty_def split: option.splits)

lemma setTimerMode_fields:
  "attempts (setTimerMode en secs rnd now s) = 0"
  "guesses (setTimerMode en secs rnd now s) = []"
  "secret (setTimerMode en secs rnd now s) = padStart 4 (CHR ''0'') (toString rnd)"
  "timerMode (setTimerMode en secs rnd now s) = en"
  "timerDuration (setTimerMode en secs rnd now s) = (case secs of None \<Rightarrow> 60 | Some d \<Rightarrow> d)"
  "timeLeft (setTimerMode en secs rnd now s) =
     (if en then (case secs of None \<Rightarrow> 60 | Some d \<Rightarrow> d) else timeLeft s)"
  "gameOver (setTimerMode en secs rnd now s) = False"
  by (simp_all add: setTimerMode_def reset_fields timer_defs Let_def split: option.splits)

lemma init_fields:
  "attempts (snd (init cbs rnd now s)) = 0" "guesses (snd (init cbs rnd now s)) = []"
  "secret (snd (init cbs rnd now s)) = padStart 4 (CHR ''0'') (toString rnd)"
  "timerMode (snd (init cbs rnd now s)) = timerMode s"
  "timerDuration (snd (init cbs rnd now s)) = timerDuration s"
  "timeLeft (snd (init cbs rnd now s)) = (if timerMode s then timerDuration s else timeLeft s)"
  by (simp_all add: init_def reset_fields Let_def)

section \<open>Secret and history are invariant\<close>

lemma secret_inv_exec: "env_ok c \<Longrightarrow> secret_inv s \<Longrightarrow> secret_inv (exec c s)"
proof (cases c)
  case (SetDifficulty level rnd now)
  assume "env_ok c" "secret_inv s"
  then show ?thesis
    using SetDifficulty setDifficulty_cases[of level rnd now s]
    by (auto simp: secret_inv_def reset_fields secret_is_4_digits)
qed (auto simp: secret_inv_def reset_fields init_fields setTimerMode_fields makeGuess_keeps
       useHint_fields tick_fields secret_is_4_digits)

lemma reach_secret_inv:
  assumes "reach ok s" and ok: "\<And>c. ok c \<Longrightarrow> env_ok c"
  shows "secret_inv s"
  using assms(1)
proof (induction rule: reach.induct)
  case (reach_init cbs rnd now)
  then have "rnd < 10000" using ok by fastforce
  then show ?case by (simp add: secret_inv_def init_fields secret_is_4_digits)
next
  case (reach_step s c)
  then show ?case using ok by (simp add: secret_inv_exec)
qed

lemma upt_one_more: "[Suc 0..<Suc (Suc n)] = [Suc 0..<Suc n] @ [Suc n]"
  by simp

lemma history_inv_start: "attempts s = 0 \<Longrightarrow> guesses s = [] \<Longrightarrow> history_inv s"
  by (simp add: history_inv_def)

lemma history_inv_same:
  "history_inv s \<Longrightarrow> attempts s' = attempts s \<Longrightarrow> guesses s' = guesses s \<Longrightarrow> history_inv s'"
  by (simp add: history_inv_def)

lemma history_inv_makeGuess: "history_inv s \<Longrightarrow> history_inv (snd (makeGuess g c s))"
proof -
  assume h: "history_inv s"
  consider "gameOver s" | "\<not> gameOver s" "js_ge (Num (attempts s)) (maxAttempts s)"
    | "\<not> gameOver s" "\<not> js_ge (Num (attempts s)) (maxAttempts s)" "\<not> test_4_digits g"
    | "\<not> gameOver s" "\<not> js_ge (Num (attempts s)) (maxAttempts s)" "test_4_digits g"
    by blast
  then show ?thesis
  proof cases
    case 1
    then show ?thesis using h by (simp add: makeGuess_rejects)
  next
    case 2
    then show ?thesis using h
      by (simp add: makeGuess_rejects history_inv_def makeGuess_exhausted_fields del: upt_Suc)
  next
    case 3
    then show ?thesis using h by (simp add: makeGuess_rejects)
  next
    case 4
    obtain ex pa where an: "analyzeGuess g s = (ex, pa)" by (cases "analyzeGuess g s")
    show ?thesis using h
      unfolding history_inv_def makeGuess_accepts(1,2)[OF 4 an]
      by (simp add: upt_one_more del: upt_Suc)
  qed
qed

lemma history_inv_exec: "history_inv s \<Longrightarrow> history_inv (exec c s)"
proof (cases c)
  case (SetDifficulty level rnd now)
  assume "history_inv s"
  then show ?thesis
    using SetDifficulty setDifficulty_cases[of level rnd now s]
    by (auto simp: reset_fields intro: history_inv_start)
next
  case (UseHint pos)
  assume "history_inv s"
  then show ?thesis using UseHint by (auto intro: history_inv_same simp: useHint_fields)
next
  case (Fire h)
  assume "history_inv s"
  then show ?thesis using Fire by (auto intro: history_inv_same simp: tick_fields)
qed (auto simp: reset_fields init_fields setTimerMode_fields history_inv_makeGuess
       intro: history_inv_start)

lemma reach_history_inv: "reach ok s \<Longrightarrow> history_inv s"
proof (induction rule: reach.induct)
  case (reach_init cbs rnd now)
  show ?case by (simp add: init_fields history_inv_start)
next
  case (reach_step s c)
  then show ?case by (simp add: history_inv_exec)
qed


section \<open>Accepted guesses\<close>

lemma exact_spec_4_iff:
  assumes "length S = 4" "length G = 4"
  shows "(exact_spec S G = 4) = (S = G)"
proof
  assume e: "exact_spec S G = 4"
  have "length (filter (\<lambda>i. S ! i = G ! i) [0..<4]) + length (filter (\<lambda>i. \<not> S ! i = G ! i) [0..<4])
          = length [0..<4]"
    by (rule sum_length_filter_compl)
  then have "length (filter (\<lambda>i. \<not> S ! i = G ! i) [0..<4]) = 0"
    using e unfolding exact_spec_def by simp
  then have "\<forall>i\<in>set [0..<4]. S ! i = G ! i"
    by (simp only: length_0_conv filter_empty_conv not_not)
  then have "\<And>i. i < length S \<Longrightarrow> S ! i = G ! i" using assms by simp
  then show "S = G" using assms by (intro nth_equalityI) simp_all
next
  assume "S = G"
  then show "exact_spec S G = 4" by (simp add: exact_spec_def)
qed

lemma getState_trace: "getState (s\<lparr>trace := t\<rparr>) = getState s"
  by (simp add: getState_def calculateScore_def)

lemma trace_emit_update:
  "trace (emit_update s) = trace s @ (if onUpdate s then [OnUpdate (getState s)] else [])"
  by (simp add: emit_update_def)

lemma getState_emit_update: "getState (emit_update s) = getState s"
  by (simp add: emit_update_def getState_trace)

lemma makeGuess_accepts_eq:
  assumes "\<not> gameOver s" "\<not> js_ge (Num (attempts s)) (maxAttempts s)" "test_4_digits g"
    and "analyzeGuess g s = (ex, pa)"
  shows "makeGuess g c s =
    (let s2 = s\<lparr>attempts := attempts s + 1,
                 guesses := \<lparr>attempt = attempts s + 1, sequence = g, exact = ex,
                               partial = pa, time = c\<rparr> # guesses s\<rparr>;
         score = calculateScore (attempts s + 1) (int ex) s
     in if ex = 4
        then (GuessWon ''ACCESS GRANTED! You win!'' score,
              emit_update (emit_end (Win (attempts s + 1) score) (cancelTimer (s2\<lparr>gameOver := True\<rparr>))))
        else (GuessFeedback ex pa
                (''Attempt '' @ numToString (attempts s + 1) @ '': '' @ toString ex
                   @ '' exact, '' @ toString pa @ '' partial''),
              emit_update (if js_ge (Num (attempts s + 1)) (maxAttempts s)
                           then emit_end (Lose (secret s)) (cancelTimer (s2\<lparr>gameOver := True\<rparr>))
                           else s2)))"
proof -
  have sc: "calculateScore a e (s\<lparr>attempts := x, guesses := y\<rparr>) = calculateScore a e s" for a e x y
    by (simp add: calculateScore_def)
  have at: "attempts (emit_end out s') = attempts s'" "attempts (cancelTimer s') = attempts s'"
    for out s'
    by (simp_all add: emit_end_def cancelTimer_def clearInterval_def split: option.splits)
  show ?thesis using assms
    by (simp add: makeGuess_def Let_def sc at)
qed

lemma makeGuess_last_attempt:
  assumes "\<not> gameOver s" "maxAttempts s = Num (attempts s + 1)" "test_4_digits g"
    and "analyzeGuess g s = (ex, pa)" and "ex \<noteq> 4"
  shows "trace (snd (makeGuess g c s)) =
           trace s @ (if onGameEnd s then [OnGameEnd (Lose (secret s))] else [])
                   @ (if onUpdate s then [OnUpdate (getState (snd (makeGuess g c s)))] else [])"
proof -
  define pre where "pre = emit_end (Lose (secret s))
      (cancelTimer (s\<lparr>attempts := attempts s + 1,
                 guesses := \<lparr>attempt = attempts s + 1, sequence = g, exact = ex,
                               partial = pa, time = c\<rparr> # guesses s, gameOver := True\<rparr>))"
  have lt: "\<not> js_ge (Num (attempts s)) (maxAttempts s)" using assms(2) by simp
  have eq: "snd (makeGuess g c s) = emit_update pre"
    using assms(2,5) unfolding makeGuess_accepts_eq[OF assms(1) lt assms(3,4)] pre_def
    by (simp add: Let_def)
  have "trace pre = trace s @ (if onGameEnd s then [OnGameEnd (Lose (secret s))] else [])"
    and "onUpdate pre = onUpdate s"
    by (simp_all add: pre_def emit_end_def cancelTimer_def clearInterval_def split: option.splits)
  then show ?thesis unfolding eq trace_emit_update getState_emit_update by simp
qed


lemma reachable_invs:
  assumes "reachable s"
  shows "engine_inv s" "secret_inv s" "history_inv s"
  using assms unfolding reachable_def
  by (auto intro: reach_engine_inv reach_secret_inv reach_history_inv)

section \<open>The last attempt\<close>

text \<open>
  C3, as the code has it. In a reachable state of a running game with one attempt
  left, a well-formed guess other than the secret ends the game: \<open>gameOver\<close> is set,
  \<open>onGameEnd\<close> (when registered) is called with \<open>'lose'\<close> and the secret, followed by
  \<open>onUpdate\<close> (when registered), and nothing else. Every later call of \<open>makeGuess\<close>
  is answered by "Game over. Start new game." and leaves the state, the history
  included, as it is.
\<close>

theorem last_attempt_loses:
  assumes "reachable s" and "\<not> gameOver s" and "maxAttempts s = Num (attempts s + 1)"
    and "test_4_digits guess" and "guess \<noteq> secret s"
  shows "gameOver (snd (makeGuess guess clock s))
       \<and> Num (attempts (snd (makeGuess guess clock s))) = maxAttempts s
       \<and> secret (snd (makeGuess guess clock s)) = secret s
       \<and> trace (snd (makeGuess guess clock s)) =
           trace s @ (if onGameEnd s then [OnGameEnd (Lose (secret s))] else [])
                   @ (if onUpdate s then [OnUpdate (getState (snd (makeGuess guess clock s)))] else [])
       \<and> makeGuess guess' clock' (snd (makeGuess guess clock s)) =
           (GuessFailure ''Game over. Start new game.'', snd (makeGuess guess clock s))"
proof -
  let ?s' = "snd (makeGuess guess clock s)"
  obtain ex pa where an: "analyzeGuess guess s = (ex, pa)" by (cases "analyzeGuess guess s")
  have sec: "test_4_digits (secret s)" using reachable_invs(2)[OF assms(1)] by (simp add: secret_inv_def)
  have "analyzeGuess guess (s\<lparr>secret := secret s\<rparr>) = (exact_spec (secret s) guess, partial_spec (secret s) guess)"
    using sec assms(4) by (rule analyzeGuess_spec)
  then have "ex = exact_spec (secret s) guess" using an by simp
  moreover have "length (secret s) = 4" "length guess = 4"
    using sec assms(4) by (simp_all add: test_4_digits_def)
  ultimately have ne: "ex \<noteq> 4" using assms(5) by (simp add: exact_spec_4_iff)
  have lt: "\<not> js_ge (Num (attempts s)) (maxAttempts s)" using assms(3) by simp
  note f = makeGuess_accepts[OF assms(2) lt assms(4) an]
  have over: "gameOver ?s'" using assms(3) by (simp add: f)
  have "Num (attempts ?s') = maxAttempts s" using assms(3) by (simp add: f)
  moreover have "secret ?s' = secret s" by (simp add: f)
  moreover note makeGuess_last_attempt[OF assms(2,3,4) an ne]
  moreover have "makeGuess guess' clock' ?s' = (GuessFailure ''Game over. Start new game.'', ?s')"
    using over by (rule makeGuess_rejects(1))
  ultimately show ?thesis using over by simp
qed

theorem last_attempt_loses_witness:
  "reachable (run [Init all_callbacks 42 0, SetDifficulty ''easy'' 42 1,
                   MakeGuess ''1111'' ''10:01'', MakeGuess ''1111'' ''10:02'',
                   MakeGuess ''1111'' ''10:03'', MakeGuess ''1111'' ''10:04'',
                   MakeGuess ''1111'' ''10:05''] Game0)
   \<and> secret (run [Init all_callbacks 42 0, SetDifficulty ''easy'' 42 1,
                   MakeGuess ''1111'' ''10:01'', MakeGuess ''1111'' ''10:02'',
                   MakeGuess ''1111'' ''10:03'', MakeGuess ''1111'' ''10:04'',
                   MakeGuess ''1111'' ''10:05''] Game0) = ''0042''
   \<and> gameOver (snd (makeGuess ''1111'' ''10:06''
        (run [Init all_callbacks 42 0, SetDifficulty ''easy'' 42 1,
              MakeGuess ''1111'' ''10:01'', MakeGuess ''1111'' ''10:02'',
              MakeGuess ''1111'' ''10:03'', MakeGuess ''1111'' ''10:04'',
              MakeGuess ''1111'' ''10:05''] Game0)))
   \<and> fst (makeGuess ''1111'' ''10:07'' (snd (makeGuess ''1111'' ''10:06''
        (run [Init all_callbacks 42 0, SetDifficulty ''easy'' 42 1,
              MakeGuess ''1111'' ''10:01'', MakeGuess ''1111'' ''10:02'',
              MakeGuess ''1111'' ''10:03'', MakeGuess ''1111'' ''10:04'',
              MakeGuess ''1111'' ''10:05''] Game0)))) =
       GuessFailure ''Game over. Start new game.''"
proof -
  let ?s = "run [Init all_callbacks 42 0, SetDifficulty ''easy'' 42 1,
                 MakeGuess ''1111'' ''10:01'', MakeGuess ''1111'' ''10:02'',
                 MakeGuess ''1111'' ''10:03'', MakeGuess ''1111'' ''10:04'',
                 MakeGuess ''1111'' ''10:05''] Game0"
  have r: "reachable ?s" by (rule reachable_run) simp
  have g: "\<not> gameOver ?s" by code_simp
  have a: "maxAttempts ?s = Num (attempts ?s + 1)" by code_simp
  have d: "test_4_digits ''1111''" by code_simp
  have s: "secret ?s = ''0042''" by code_simp
  then have n: "''1111'' \<noteq> secret ?s" by simp
  show ?thesis
    using r s last_attempt_loses[OF r g a d n, of "''10:06''" "''1111''" "''10:07''"] by simp
qed

text \<open>
  On easy (six attempts) the seventh guess is not answered by
  "Maximum attempts reached!".
\<close>

theorem seventh_guess_counterexample:
  "fst (makeGuess ''1111'' ''10:07''
        (run [Init all_callbacks 42 0, SetDifficulty ''easy'' 42 1,
              MakeGuess ''1111'' ''10:01'', MakeGuess ''1111'' ''10:02'',
              MakeGuess ''1111'' ''10:03'', MakeGuess ''1111'' ''10:04'',
              MakeGuess ''1111'' ''10:05'', MakeGuess ''1111'' ''10:06''] Game0))
     \<noteq> GuessFailure ''Maximum attempts reached!''"
  by code_simp

section \<open>Hints\<close>

text \<open>
  C6. In a reachable state and for a drawn position below 4: \<open>useHint\<close> fails with
  "Game is over!" when the game is over; it fails with "No hints remaining!" when
  \<open>hintsUsed >= maxHints\<close>, and then hintsUsed equals maxHints and the state is
  unchanged; otherwise it adds one to hintsUsed and returns the position counted
  from 1 (between 1 and 4), the secret's digit at that position, and as remaining
  \<open>maxHints - hintsUsed\<close> with the new hintsUsed. With a budget of n hints the
  comparison is true exactly when n hints have been used, so the call after n hints
  fails, and remaining is the number n minus the new hintsUsed. With the budget
  \<open>undefined\<close> the comparison is never true: the hint is given, with remaining \<open>NaN\<close>.
\<close>

theorem useHint_budget:
  assumes "reachable s" and "pos < 4"
  shows "(gameOver s \<longrightarrow> useHint pos s = (HintFailure ''Game is over!'', s))
       \<and> (\<not> gameOver s \<and> js_ge (Num (hintsUsed s)) (maxHints s) \<longrightarrow>
            useHint pos s = (HintFailure ''No hints remaining!'', s)
            \<and> maxHints s = Num (hintsUsed s))
       \<and> (\<not> gameOver s \<and> \<not> js_ge (Num (hintsUsed s)) (maxHints s) \<longrightarrow>
            fst (useHint pos s) =
              Hint (int pos + 1) (Some (secret s ! pos))
                (js_sub (maxHints s) (Num (hintsUsed s + 1)))
            \<and> 1 \<le> int pos + 1 \<and> int pos + 1 \<le> 4
            \<and> hintsUsed (snd (useHint pos s)) = hintsUsed s + 1
            \<and> maxHints (snd (useHint pos s)) = maxHints s)
       \<and> (maxHints s = Num n \<longrightarrow>
            js_ge (Num (hintsUsed s)) (maxHints s) = (hintsUsed s = n)
            \<and> js_sub (maxHints s) (Num (hintsUsed s + 1)) = Num (n - (hintsUsed s + 1)))
       \<and> (maxHints s = Undefined \<longrightarrow>
            \<not> js_ge (Num (hintsUsed s)) (maxHints s)
            \<and> js_sub (maxHints s) (Num (hintsUsed s + 1)) = NaN)"
proof -
  have b: "budget_inv s"
    using reachable_invs(1)[OF assms(1)] by (simp add: engine_inv_def)
  have len: "length (secret s) = 4"
    using reachable_invs(2)[OF assms(1)] by (simp add: secret_inv_def test_4_digits_def)
  show ?thesis
  proof (cases "maxHints s")
    case (Num h)
    then have "hintsUsed s \<le> h" using b by (simp add: budget_inv_def)
    then show ?thesis using Num len assms(2)
      by (auto simp: useHint_def emit_update_def at_index_def Let_def)
  next
    case NaN
    then show ?thesis using len assms(2)
      by (simp add: useHint_def emit_update_def at_index_def Let_def)
  next
    case Undefined
    then show ?thesis using len assms(2)
      by (simp add: useHint_def emit_update_def at_index_def Let_def)
  qed
qed

theorem useHint_budget_witness:
  "reachable (run [Init all_callbacks 42 0] Game0) \<and> (2::nat) < 4
   \<and> fst (useHint 2 (run [Init all_callbacks 42 0] Game0)) = Hint 3 (Some (CHR ''4'')) (Num 2)
   \<and> hintsUsed (snd (useHint 2 (run [Init all_callbacks 42 0] Game0))) = 1
   \<and> reachable (run [Init all_callbacks 42 0, UseHint 0, UseHint 1, UseHint 2] Game0)
   \<and> useHint 3 (run [Init all_callbacks 42 0, UseHint 0, UseHint 1, UseHint 2] Game0) =
       (HintFailure ''No hints remaining!'',
        run [Init all_callbacks 42 0, UseHint 0, UseHint 1, UseHint 2] Game0)
   \<and> hintsUsed (run [Init all_callbacks 42 0, UseHint 0, UseHint 1, UseHint 2] Game0) = 3
   \<and> reachable (run [Init all_callbacks 42 0, MakeGuess ''0042'' ''10:00''] Game0)
   \<and> useHint 1 (run [Init all_callbacks 42 0, MakeGuess ''0042'' ''10:00''] Game0) =
       (HintFailure ''Game is over!'',
        run [Init all_callbacks 42 0, MakeGuess ''0042'' ''10:00''] Game0)
   \<and> reachable (run [Init all_callbacks 42 0, SetDifficulty ''constructor'' 42 1,
                      UseHint 0, UseHint 1, UseHint 2] Game0)
   \<and> fst (useHint 3 (run [Init all_callbacks 42 0, SetDifficulty ''constructor'' 42 1,
                           UseHint 0, UseHint 1, UseHint 2] Game0)) =
       Hint 4 (Some (CHR ''2'')) NaN
   \<and> hintsUsed (snd (useHint 3 (run [Init all_callbacks 42 0, SetDifficulty ''constructor'' 42 1,
                           UseHint 0, UseHint 1, UseHint 2] Game0))) = 4"
proof -
  let ?s1 = "run [Init all_callbacks 42 0] Game0"
  let ?s2 = "run [Init all_callbacks 42 0, UseHint 0, UseHint 1, UseHint 2] Game0"
  let ?s3 = "run [Init all_callbacks 42 0, MakeGuess ''0042'' ''10:00''] Game0"
  let ?s4 = "run [Init all_callbacks 42 0, SetDifficulty ''constructor'' 42 1,
                  UseHint 0, UseHint 1, UseHint 2] Game0"
  have r1: "reachable ?s1" by (rule reachable_run) simp
  have r2: "reachable ?s2" by (rule reachable_run) simp
  have r3: "reachable ?s3" by (rule reachable_run) simp
  have r4: "reachable ?s4" by (rule reachable_run) simp
  have f1: "\<not> gameOver ?s1" "hintsUsed ?s1 = 0" "maxHints ?s1 = Num 3" "secret ?s1 = ''0042''"
    by code_simp+
  have f2: "\<not> gameOver ?s2" "hintsUsed ?s2 = 3" "maxHints ?s2 = Num 3"
    by code_simp+
  have f3: "gameOver ?s3" by code_simp
  have f4: "\<not> gameOver ?s4" "hintsUsed ?s4 = 3" "maxHints ?s4 = Undefined" "secret ?s4 = ''0042''"
    by code_simp+
  have p: "(2::nat) < 4" "(3::nat) < 4" "(1::nat) < 4" by simp_all
  show ?thesis
    using r1 r2 r3 r4 f1 f2 f3 f4
      useHint_budget[OF r1 p(1), where n=3] useHint_budget[OF r2 p(2), where n=3]
      useHint_budget[OF r3 p(3), where n=3] useHint_budget[OF r4 p(2), where n=3]
    by simp
qed

section \<open>History and attempts\<close>

text \<open>
  C10. In every reachable state the history has as many entries as attempts were
  counted, numbered attempts, attempts - 1, ..., 1 from the newest to the oldest. A
  rejected guess changes neither; an accepted guess adds one to attempts and puts
  one entry, numbered with the new attempts, in front. \<open>reset\<close> and \<open>setTimerMode\<close>
  set attempts to 0 and empty the history, and so does \<open>setDifficulty\<close> for
  \<open>easy\<close>, \<open>medium\<close>, \<open>hard\<close> and for every name the table inherits;
  \<open>setDifficulty\<close> with any other level changes nothing.
\<close>

theorem history_matches_attempts:
  assumes "reachable s"
  shows "int (length (guesses s)) = attempts s
       \<and> map attempt (guesses s) = rev (map int [1..<Suc (length (guesses s))])
       \<and> ((gameOver s \<or> \<not> test_4_digits guess) \<longrightarrow>
            (\<exists>m. fst (makeGuess guess clock s) = GuessFailure m)
            \<and> guesses (snd (makeGuess guess clock s)) = guesses s
            \<and> attempts (snd (makeGuess guess clock s)) = attempts s)
       \<and> (\<not> gameOver s \<and> test_4_digits guess \<longrightarrow>
            (\<forall>m. fst (makeGuess guess clock s) \<noteq> GuessFailure m)
            \<and> attempts (snd (makeGuess guess clock s)) = attempts s + 1
            \<and> (\<exists>e. guesses (snd (makeGuess guess clock s)) = e # guesses s
                    \<and> attempt e = attempts s + 1 \<and> sequence e = guess))
       \<and> attempts (reset rnd now s) = 0 \<and> guesses (reset rnd now s) = []
       \<and> attempts (setTimerMode enabled seconds rnd now s) = 0
       \<and> guesses (setTimerMode enabled seconds rnd now s) = []
       \<and> (level \<in> set (''easy'' # ''medium'' # ''hard'' # Object_prototype_names) \<longrightarrow>
            attempts (setDifficulty level rnd now s) = 0
            \<and> guesses (setDifficulty level rnd now s) = [])
       \<and> (level \<notin> set (''easy'' # ''medium'' # ''hard'' # Object_prototype_names) \<longrightarrow>
            setDifficulty level rnd now s = s)"
proof -
  have h: "attempts s = int (length (guesses s))"
      "map attempt (guesses s) = rev (map int [1..<Suc (length (guesses s))])"
    using reachable_invs(3)[OF assms] by (simp_all add: history_inv_def del: upt_Suc)
  have lt: "gameOver s \<or> \<not> js_ge (Num (attempts s)) (maxAttempts s)"
    using reachable_invs(1)[OF assms] by (simp add: engine_inv_def budget_not_exhausted)
  have rej: "(\<exists>m. fst (makeGuess guess clock s) = GuessFailure m)
            \<and> guesses (snd (makeGuess guess clock s)) = guesses s
            \<and> attempts (snd (makeGuess guess clock s)) = attempts s"
    if "gameOver s \<or> \<not> test_4_digits guess"
    using that lt by (cases "gameOver s") (auto simp: makeGuess_rejects)
  have acc: "(\<forall>m. fst (makeGuess guess clock s) \<noteq> GuessFailure m)
            \<and> attempts (snd (makeGuess guess clock s)) = attempts s + 1
            \<and> (\<exists>e. guesses (snd (makeGuess guess clock s)) = e # guesses s
                    \<and> attempt e = attempts s + 1 \<and> sequence e = guess)"
    if a: "\<not> gameOver s \<and> test_4_digits guess"
  proof -
    obtain ex pa where an: "analyzeGuess guess s = (ex, pa)" by (cases "analyzeGuess guess s")
    have l: "\<not> js_ge (Num (attempts s)) (maxAttempts s)" using a lt by simp
    have "\<forall>m. fst (makeGuess guess clock s) \<noteq> GuessFailure m"
      unfolding makeGuess_accepts_eq[OF conjunct1[OF a] l conjunct2[OF a] an]
      by (simp add: Let_def)
    then show ?thesis
      by (simp add: makeGuess_accepts(1,2)[OF conjunct1[OF a] l conjunct2[OF a] an])
  qed
  have known: "(level \<in> set (''easy'' # ''medium'' # ''hard'' # Object_prototype_names))
                 = (DIFFICULTY_SETTINGS level \<noteq> None)"
    unfolding DIFFICULTY_SETTINGS_def by (simp del: set_simps) auto
  have sd: "attempts (setDifficulty level rnd now s) = 0 \<and> guesses (setDifficulty level rnd now s) = []"
    if "level \<in> set (''easy'' # ''medium'' # ''hard'' # Object_prototype_names)"
    using that unfolding known by (auto simp: setDifficulty_def reset_fields)
  have sn: "setDifficulty level rnd now s = s"
    if "level \<notin> set (''easy'' # ''medium'' # ''hard'' # Object_prototype_names)"
    using that unfolding known by (cases "DIFFICULTY_SETTINGS level") (auto simp: setDifficulty_def)
  have r0: "attempts (reset rnd now s) = 0 \<and> guesses (reset rnd now s) = []
       \<and> attempts (setTimerMode enabled seconds rnd now s) = 0
       \<and> guesses (setTimerMode enabled seconds rnd now s) = []"
    by (simp add: reset_fields setTimerMode_fields)
  have h1: "int (length (guesses s)) = attempts s" using h(1) by simp
  show ?thesis
    apply (intro conjI impI)
    using h1 h(2) rej acc sd sn r0 by blast+
qed

theorem history_matches_attempts_witness:
  "reachable (run [Init all_callbacks 42 0, MakeGuess ''1234'' ''10:00'',
                   MakeGuess ''5678'' ''10:01''] Game0)
   \<and> attempts (run [Init all_callbacks 42 0, MakeGuess ''1234'' ''10:00'',
                     MakeGuess ''5678'' ''10:01''] Game0) = 2
   \<and> map attempt (guesses (run [Init all_callbacks 42 0, MakeGuess ''1234'' ''10:00'',
                     MakeGuess ''5678'' ''10:01''] Game0)) = [2, 1]
   \<and> attempts (snd (makeGuess ''9999'' ''10:02''
         (run [Init all_callbacks 42 0, MakeGuess ''1234'' ''10:00'',
               MakeGuess ''5678'' ''10:01''] Game0))) = 3
   \<and> attempts (setDifficulty ''hard'' 7 1
         (run [Init all_callbacks 42 0, MakeGuess ''1234'' ''10:00'',
               MakeGuess ''5678'' ''10:01''] Game0)) = 0
   \<and> guesses (setDifficulty ''hard'' 7 1
         (run [Init all_callbacks 42 0, MakeGuess ''1234'' ''10:00'',
               MakeGuess ''5678'' ''10:01''] Game0)) = []
   \<and> guesses (reset 7 1
         (run [Init all_callbacks 42 0, MakeGuess ''1234'' ''10:00'',
               MakeGuess ''5678'' ''10:01''] Game0)) = []"
proof -
  let ?s = "run [Init all_callbacks 42 0, MakeGuess ''1234'' ''10:00'',
                 MakeGuess ''5678'' ''10:01''] Game0"
  have r: "reachable ?s" by (rule reachable_run) simp
  have f: "length (guesses ?s) = 2" "\<not> gameOver ?s" "test_4_digits ''9999''"
    by code_simp+
  show ?thesis
    using r f history_matches_attempts[OF r, where guess="''9999''" and clock="''10:02''"
        and rnd=7 and now=1 and enabled=False and seconds=None and level="''hard''"]
    by (simp add: upt_rec)
qed

text \<open>
  The table decides the same way for each of its three levels, for an inherited name
  and for a name it does not have.
\<close>

lemma setDifficulty_levels:
  "maxAttempts (setDifficulty ''easy'' rnd now s) = Num 6"
  "maxHints (setDifficulty ''easy'' rnd now s) = Num 5"
  "maxAttempts (setDifficulty ''medium'' rnd now s) = Num 15"
  "maxHints (setDifficulty ''medium'' rnd now s) = Num 3"
  "maxAttempts (setDifficulty ''hard'' rnd now s) = Num 15"
  "maxHints (setDifficulty ''hard'' rnd now s) = Num 0"
  "maxAttempts (setDifficulty ''constructor'' rnd now s) = Undefined"
  "maxHints (setDifficulty ''constructor'' rnd now s) = Undefined"
  "setDifficulty ''expert'' rnd now s = s"
  by (simp_all add: setDifficulty_def DIFFICULTY_SETTINGS_def Object_prototype_names_def
        reset_fields)

section \<open>The countdown\<close>

lemma tick_trace:
  "trace (tick s) =
     trace s @ (if onTimerTick s then [OnTimerTick (timeLeft s - 1)] else [])
             @ (if timeLeft s - 1 \<le> 0 \<and> onGameEnd s then [OnGameEnd Timeout] else [])
             @ (if onUpdate s then [OnUpdate (getState (tick s))] else [])"
proof -
  define pre where "pre =
    (let s2 = emit_tick (timeLeft s - 1) (s\<lparr>timeLeft := timeLeft s - 1\<rparr>)
     in if timeLeft s - 1 \<le> 0 then emit_end Timeout (cancelTimer (s2\<lparr>gameOver := True\<rparr>)) else s2)"
  have tl: "timeLeft (emit_tick t s') = timeLeft s'" for t s' by (simp add: emit_tick_def)
  have eq: "tick s = emit_update pre"
    by (simp add: tick_def pre_def Let_def tl)
  have "trace pre = trace s @ (if onTimerTick s then [OnTimerTick (timeLeft s - 1)] else [])
             @ (if timeLeft s - 1 \<le> 0 \<and> onGameEnd s then [OnGameEnd Timeout] else [])"
    and "onUpdate pre = onUpdate s"
    by (simp_all add: pre_def emit_tick_def emit_end_def cancelTimer_def clearInterval_def Let_def
          split: option.splits)
  then show ?thesis unfolding eq trace_emit_update getState_emit_update by simp
qed

lemma timeouts_tick:
  "timeouts (tick s) = timeouts s + (if timeLeft s - 1 \<le> 0 \<and> onGameEnd s then 1 else 0)"
  unfolding timeouts_def tick_trace by simp

lemma scheduled_handle:
  "engine_inv s \<Longrightarrow> h \<in> set (scheduled s) \<Longrightarrow>
     timerInterval s = Some h \<and> scheduled s = [h] \<and> timerMode s \<and> \<not> gameOver s"
  by (auto simp: inv_defs split: option.splits)

lemma run_Cons: "run (c # cs) s = run cs (exec c s)"
  by (simp add: run_def)

lemma run_Nil: "run [] s = s"
  by (simp add: run_def)

lemma fire_idle: "scheduled s = [] \<Longrightarrow> run (replicate m (Fire h)) s = s"
  by (induction m) (simp_all add: run_def)

lemma countdown:
  assumes "engine_inv s" and "timerInterval s = Some h" and "timeLeft s = int (Suc n)"
  shows "gameOver (run (replicate (Suc n) (Fire h)) s)
       \<and> scheduled (run (replicate (Suc n) (Fire h)) s) = []
       \<and> timeLeft (run (replicate (Suc n) (Fire h)) s) = 0
       \<and> timeouts (run (replicate (Suc n) (Fire h)) s) = timeouts s + (if onGameEnd s then 1 else 0)
       \<and> (\<forall>k\<le>n. \<not> gameOver (run (replicate k (Fire h)) s)
                 \<and> timeLeft (run (replicate k (Fire h)) s) = int (Suc n) - int k)"
  using assms
proof (induction n arbitrary: s)
  case 0
  then have sch: "scheduled s = [h]" "\<not> gameOver s" by (auto simp: inv_defs)
  then have e: "run (replicate (Suc 0) (Fire h)) s = tick s" by (simp add: run_def)
  show ?case unfolding e using 0 sch
    by (simp add: tick_fields timeouts_tick run_Nil)
next
  case (Suc n)
  then have sch: "scheduled s = [h]" "\<not> gameOver s" by (auto simp: inv_defs)
  then have e: "exec (Fire h) s = tick s" by simp
  have i: "engine_inv (tick s)" using Suc.prems(1) by (rule engine_inv_tick)
  have t: "timerInterval (tick s) = Some h" "timeLeft (tick s) = int (Suc n)"
    using Suc.prems by (simp_all add: tick_fields)
  note ih = Suc.IH[OF i t]
  have r: "run (replicate (Suc k) (Fire h)) s = run (replicate k (Fire h)) (tick s)" for k
    by (simp only: replicate_Suc run_Cons e)
  have to: "timeouts (tick s) = timeouts s" using Suc.prems(3) by (simp add: timeouts_tick)
  have og: "onGameEnd (tick s) = onGameEnd s" by (simp add: tick_fields)
  have "\<not> gameOver (run (replicate k (Fire h)) s)
        \<and> timeLeft (run (replicate k (Fire h)) s) = int (Suc (Suc n)) - int k" if "k \<le> Suc n" for k
  proof (cases k)
    case 0
    then show ?thesis using sch Suc.prems(3) by (simp add: run_Nil)
  next
    case (Suc j)
    then have "j \<le> n" using that by simp
    with ih have "\<not> gameOver (run (replicate j (Fire h)) (tick s))
        \<and> timeLeft (run (replicate j (Fire h)) (tick s)) = int (Suc n) - int j"
      by blast
    then show ?thesis unfolding Suc r by simp
  qed
  then show ?case using ih by (simp only: r to og) simp
qed


lemma setTimerMode_timer:
  "timerInterval (setTimerMode en secs rnd now s) = (if en then Some (Suc (nextHandle s)) else None)"
  "onGameEnd (setTimerMode en secs rnd now s) = onGameEnd s"
  by (simp_all add: setTimerMode_def reset_fields timer_defs Let_def split: option.splits)

lemma init_timer:
  "timerInterval (snd (init cbs rnd now s)) =
     (if timerMode s then Some (nextHandle s) else timerInterval s)"
  by (simp add: init_def reset_fields Let_def)

lemma makeGuess_timer:
  "timerInterval (snd (makeGuess g c s)) = None \<or>
   timerInterval (snd (makeGuess g c s)) = timerInterval s"
  by (simp add: makeGuess_def emit_defs cancelTimer_def clearInterval_def Let_def
        split: prod.splits option.splits)

lemma clock_inv_Game0: "clock_inv Game0"
  by (simp add: clock_inv_def Game0_def)

lemma clock_inv_reset:
  assumes "clock_inv s" and "timerMode s' = timerMode s" and "timerDuration s' = timerDuration s"
    and "timeLeft s' = timeLeft s" and "timerInterval s' = timerInterval s"
  shows "clock_inv (reset rnd now s')"
  using assms by (simp add: clock_inv_def reset_fields)

lemma clock_inv_exec:
  assumes "engine_inv s" and "clock_inv s" and "duration_ok c"
  shows "clock_inv (exec c s)"
proof (cases c)
  case (Init cbs rnd now)
  show ?thesis using assms(2) unfolding Init clock_inv_def exec.simps
    by (simp add: init_fields init_timer)
next
  case (Reset rnd now)
  show ?thesis unfolding Reset exec.simps using assms(2) by (rule clock_inv_reset) simp_all
next
  case (SetDifficulty level rnd now)
  show ?thesis
    using setDifficulty_cases[of level rnd now s] assms(2)
    unfolding SetDifficulty exec.simps
    by (auto intro!: clock_inv_reset[where s=s])
next
  case (SetTimerMode en secs rnd now)
  show ?thesis using assms(2,3) unfolding SetTimerMode clock_inv_def exec.simps
    by (auto simp: setTimerMode_fields setTimerMode_timer split: option.splits)
next
  case (MakeGuess g clock)
  show ?thesis using assms(2) makeGuess_timer[of g clock s]
    unfolding MakeGuess clock_inv_def exec.simps
    by (auto simp: makeGuess_keeps)
next
  case (UseHint pos)
  show ?thesis using assms(2) unfolding UseHint clock_inv_def exec.simps
    by (simp add: useHint_fields)
next
  case (Fire h)
  show ?thesis
  proof (cases "h \<in> set (scheduled s)")
    case True
    then have "timerInterval s = Some h" using scheduled_handle[OF assms(1)] by simp
    then show ?thesis using assms(2) True unfolding Fire clock_inv_def exec.simps
      by (auto simp: tick_fields)
  next
    case False
    then show ?thesis using assms(2) unfolding Fire by simp
  qed
qed

lemma reach_clock_inv:
  assumes "reach ok s" and ok: "\<And>c. ok c \<Longrightarrow> duration_ok c"
  shows "clock_inv s"
  using assms(1)
proof (induction rule: reach.induct)
  case (reach_init cbs rnd now)
  show ?case by (intro clock_inv_exec engine_inv_Game0 clock_inv_Game0) simp
next
  case (reach_step s c)
  then show ?case using ok reach_engine_inv by (intro clock_inv_exec) auto
qed

lemma reach_run_init:
  "list_all ok (Init cbs rnd now # cs) \<Longrightarrow> reach ok (run (Init cbs rnd now # cs) Game0)"
proof -
  assume a: "list_all ok (Init cbs rnd now # cs)"
  then have "reach ok (exec (Init cbs rnd now) Game0)" by (intro reach_init) simp
  then have "reach ok (run cs (exec (Init cbs rnd now) Game0))"
    using a by (intro reach_run) simp_all
  then show ?thesis by (simp add: run_def)
qed

text \<open>
  C8. In a reachable state, an interval the host still fires belongs to a running
  game in timer mode. Its firing takes one off \<open>timeLeft\<close>, calls \<open>onTimerTick\<close>
  (when registered) with the new value and ends with \<open>onUpdate\<close> (when registered).
  The firing on which \<open>timeLeft\<close> becomes 0 or less sets \<open>gameOver\<close>, clears the
  interval and calls \<open>onGameEnd('timeout')\<close> once, between the other two calls; no
  interval is scheduled afterwards, so later firings change nothing. A firing that
  leaves time keeps the game running and the interval scheduled. With n + 1 seconds
  left, the game runs through the first n firings, is over after n + 1, and
  \<open>onGameEnd('timeout')\<close> has then been called exactly once more (5 firings for a
  duration of 5).
\<close>

theorem timer_tick_behaviour:
  assumes "reachable s" and "h \<in> set (scheduled s)"
  shows "timerMode s \<and> \<not> gameOver s
       \<and> timeLeft (exec (Fire h) s) = timeLeft s - 1
       \<and> trace (exec (Fire h) s) =
           trace s @ (if onTimerTick s then [OnTimerTick (timeLeft s - 1)] else [])
                   @ (if timeLeft s - 1 \<le> 0 \<and> onGameEnd s then [OnGameEnd Timeout] else [])
                   @ (if onUpdate s then [OnUpdate (getState (exec (Fire h) s))] else [])
       \<and> (timeLeft s - 1 \<le> 0 \<longrightarrow>
            gameOver (exec (Fire h) s) \<and> scheduled (exec (Fire h) s) = []
            \<and> timerInterval (exec (Fire h) s) = None
            \<and> run (replicate m (Fire h')) (exec (Fire h) s) = exec (Fire h) s)
       \<and> (0 < timeLeft s - 1 \<longrightarrow>
            \<not> gameOver (exec (Fire h) s) \<and> scheduled (exec (Fire h) s) = scheduled s)
       \<and> (timeLeft s = int (Suc n) \<longrightarrow>
            gameOver (run (replicate (Suc n) (Fire h)) s)
            \<and> timeouts (run (replicate (Suc n) (Fire h)) s) =
                timeouts s + (if onGameEnd s then 1 else 0)
            \<and> (\<forall>k\<le>n. \<not> gameOver (run (replicate k (Fire h)) s))
            \<and> run (replicate m (Fire h')) (run (replicate (Suc n) (Fire h)) s) =
                run (replicate (Suc n) (Fire h)) s)"
proof -
  have inv: "engine_inv s" using assms(1) by (rule reachable_invs)
  note sh = scheduled_handle[OF inv assms(2)]
  have e: "exec (Fire h) s = tick s" using assms(2) by simp
  have stop: "gameOver (tick s) \<and> scheduled (tick s) = [] \<and> timerInterval (tick s) = None
       \<and> run (replicate m (Fire h')) (tick s) = tick s" if "timeLeft s - 1 \<le> 0"
  proof -
    have "scheduled (tick s) = []" using that sh by (simp add: tick_fields)
    then show ?thesis using that by (simp add: tick_fields fire_idle)
  qed
  have go: "\<not> gameOver (tick s) \<and> scheduled (tick s) = scheduled s" if "0 < timeLeft s - 1"
    using that sh by (simp add: tick_fields)
  have cd: "gameOver (run (replicate (Suc n) (Fire h)) s)
            \<and> timeouts (run (replicate (Suc n) (Fire h)) s) =
                timeouts s + (if onGameEnd s then 1 else 0)
            \<and> (\<forall>k\<le>n. \<not> gameOver (run (replicate k (Fire h)) s))
            \<and> run (replicate m (Fire h')) (run (replicate (Suc n) (Fire h)) s) =
                run (replicate (Suc n) (Fire h)) s" if t: "timeLeft s = int (Suc n)"
  proof -
    have ti: "timerInterval s = Some h" using sh by simp
    note c = countdown[OF inv ti t]
    have "scheduled (run (replicate (Suc n) (Fire h)) s) = []" using c by blast
    then have "run (replicate m (Fire h')) (run (replicate (Suc n) (Fire h)) s) =
                run (replicate (Suc n) (Fire h)) s" by (rule fire_idle)
    then show ?thesis using c by blast
  qed
  show ?thesis unfolding e using sh stop go cd
    by (simp add: tick_fields tick_trace del: replicate_Suc)
qed

theorem timer_tick_behaviour_witness:
  "reachable (run [Init all_callbacks 42 0, SetTimerMode True (Some 5) 7 1] Game0)
   \<and> 2 \<in> set (scheduled (run [Init all_callbacks 42 0, SetTimerMode True (Some 5) 7 1] Game0))
   \<and> timeLeft (run [Init all_callbacks 42 0, SetTimerMode True (Some 5) 7 1] Game0) = 5
   \<and> timeLeft (exec (Fire 2) (run [Init all_callbacks 42 0, SetTimerMode True (Some 5) 7 1] Game0)) = 4
   \<and> gameOver (run (replicate (Suc 4) (Fire 2))
        (run [Init all_callbacks 42 0, SetTimerMode True (Some 5) 7 1] Game0))
   \<and> timeouts (run (replicate (Suc 4) (Fire 2))
        (run [Init all_callbacks 42 0, SetTimerMode True (Some 5) 7 1] Game0)) = 1
   \<and> run (replicate 3 (Fire 2)) (run (replicate (Suc 4) (Fire 2))
        (run [Init all_callbacks 42 0, SetTimerMode True (Some 5) 7 1] Game0)) =
       run (replicate (Suc 4) (Fire 2))
        (run [Init all_callbacks 42 0, SetTimerMode True (Some 5) 7 1] Game0)"
proof -
  let ?s = "run [Init all_callbacks 42 0, SetTimerMode True (Some 5) 7 1] Game0"
  have r: "reachable ?s" by (rule reachable_run) simp
  have f: "scheduled ?s = [2]" "timeLeft ?s = 5" "timeouts ?s = 0" "onGameEnd ?s"
    by code_simp+
  have h: "2 \<in> set (scheduled ?s)" using f(1) by simp
  have t: "timeLeft ?s = int (Suc 4)" using f(2) by simp
  note th = timer_tick_behaviour[OF r h, where n=4 and m=3 and h'=2]
  have "timeLeft (exec (Fire 2) ?s) = timeLeft ?s - 1" using th by blast
  then have "timeLeft (exec (Fire 2) ?s) = 4" using f(2) by simp
  moreover have "gameOver (run (replicate (Suc 4) (Fire 2)) ?s)" using th t by blast
  moreover have "timeouts (run (replicate (Suc 4) (Fire 2)) ?s) =
      timeouts ?s + (if onGameEnd ?s then 1 else 0)" using th t by blast
  then have "timeouts (run (replicate (Suc 4) (Fire 2)) ?s) = 1"
    using f(3,4) by (simp del: replicate_Suc)
  moreover have "run (replicate 3 (Fire 2)) (run (replicate (Suc 4) (Fire 2)) ?s) =
       run (replicate (Suc 4) (Fire 2)) ?s" using th t by blast
  ultimately show ?thesis using r h f(2) by blast
qed

section \<open>The clock is never negative for positive durations\<close>

text \<open>
  C9, as the code has it. When every call of \<open>setTimerMode\<close> passes a duration that
  is not negative, and at least 1 when it switches the timer on, then in every
  reachable state \<open>timerDuration\<close> and \<open>timeLeft\<close> are not negative. A scheduled
  countdown belongs to a running game in timer mode with at least one second left;
  its firing takes one off \<open>timeLeft\<close>, and the game is over after it exactly when
  \<open>timeLeft\<close> has reached 0, with no interval scheduled any more.
\<close>

theorem clock_never_negative:
  assumes "reach clock_ok s"
  shows "0 \<le> timerDuration s \<and> 0 \<le> timeLeft s
       \<and> (h \<in> set (scheduled s) \<longrightarrow>
            timerMode s \<and> \<not> gameOver s \<and> 1 \<le> timeLeft s
            \<and> timeLeft (exec (Fire h) s) = timeLeft s - 1
            \<and> gameOver (exec (Fire h) s) = (timeLeft (exec (Fire h) s) = 0)
            \<and> (gameOver (exec (Fire h) s) \<longrightarrow> scheduled (exec (Fire h) s) = []))"
proof -
  have inv: "engine_inv s" using assms by (rule reach_engine_inv)
  have ck: "clock_inv s" using assms by (rule reach_clock_inv) (simp add: clock_ok_def)
  then have b: "0 \<le> timerDuration s" "0 \<le> timeLeft s" by (simp_all add: clock_inv_def)
  have "timerMode s \<and> \<not> gameOver s \<and> 1 \<le> timeLeft s
            \<and> timeLeft (exec (Fire h) s) = timeLeft s - 1
            \<and> gameOver (exec (Fire h) s) = (timeLeft (exec (Fire h) s) = 0)
            \<and> (gameOver (exec (Fire h) s) \<longrightarrow> scheduled (exec (Fire h) s) = [])"
    if h: "h \<in> set (scheduled s)"
  proof -
    note sh = scheduled_handle[OF inv h]
    then have "1 \<le> timeLeft s" using ck by (simp add: clock_inv_def)
    then show ?thesis using sh h by (auto simp: tick_fields)
  qed
  then show ?thesis using b by blast
qed


theorem clock_never_negative_witness:
  "reach clock_ok (run [Init all_callbacks 42 0, SetTimerMode True (Some 2) 7 1, Fire 2] Game0)
   \<and> 2 \<in> set (scheduled (run [Init all_callbacks 42 0, SetTimerMode True (Some 2) 7 1, Fire 2] Game0))
   \<and> timeLeft (run [Init all_callbacks 42 0, SetTimerMode True (Some 2) 7 1, Fire 2] Game0) = 1
   \<and> timeLeft (exec (Fire 2)
        (run [Init all_callbacks 42 0, SetTimerMode True (Some 2) 7 1, Fire 2] Game0)) = 0
   \<and> gameOver (exec (Fire 2)
        (run [Init all_callbacks 42 0, SetTimerMode True (Some 2) 7 1, Fire 2] Game0))"
proof -
  let ?s = "run [Init all_callbacks 42 0, SetTimerMode True (Some 2) 7 1, Fire 2] Game0"
  have r: "reach clock_ok ?s" by (rule reach_run_init) (simp add: clock_ok_def)
  have f: "scheduled ?s = [2]" "timeLeft ?s = 1" by code_simp+
  have h: "2 \<in> set (scheduled ?s)" using f(1) by simp
  note th = clock_never_negative[OF r, where h=2]
  have c: "timeLeft (exec (Fire 2) ?s) = timeLeft ?s - 1"
    "gameOver (exec (Fire 2) ?s) = (timeLeft (exec (Fire 2) ?s) = 0)"
    using th h by blast+
  have "timeLeft (exec (Fire 2) ?s) = 0" using c(1) f(2) by simp
  moreover have "gameOver (exec (Fire 2) ?s)" using c f(2) by simp
  ultimately show ?thesis using r h f(2) by blast
qed

text \<open>
  With the timer switched on for 0 seconds, the first firing leaves \<open>timeLeft\<close> at -1.
\<close>

theorem zero_duration_counterexample:
  "reachable (run [Init all_callbacks 42 0, SetTimerMode True (Some 0) 7 1, Fire 2] Game0)
   \<and> timeLeft (run [Init all_callbacks 42 0, SetTimerMode True (Some 0) 7 1, Fire 2] Game0) = - 1"
proof -
  let ?s = "run [Init all_callbacks 42 0, SetTimerMode True (Some 0) 7 1, Fire 2] Game0"
  have "reachable ?s" by (rule reachable_run) simp
  moreover have "timeLeft ?s = - 1" by code_simp
  ultimately show ?thesis by simp
qed

end
